theory Spec2Isabelle
  imports Complex_Main "HOL-Library.Word" "HOL-Library.Multiset"
begin

section \<open>Errors\<close>

text \<open>
  Every exception the modelled code can raise is a value of \<open>error\<close>:
  \<^item> \<open>TimeOutOfRange\<close>: the \<^verbatim>\<open>RangeError\<close> of \<^verbatim>\<open>throwIfTimeOutOfRange\<close>;
  \<^item> \<open>InvalidValueLength\<close>: the \<^verbatim>\<open>Error\<close> of \<^verbatim>\<open>#throwIfValueLengthIsInvalid\<close>;
  \<^item> \<open>SizeLimitReached\<close>: the \<^verbatim>\<open>Error('Size limit reached.')\<close> of \<^verbatim>\<open>ResizeableBuffer.resize\<close>;
  \<^item> \<open>OffsetOutOfBounds\<close>: the \<^verbatim>\<open>RangeError\<close> the runtime raises when a \<^verbatim>\<open>DataView\<close>
    or typed-array access leaves the view;
  \<^item> \<open>InvalidArrayLength\<close>: the \<^verbatim>\<open>RangeError\<close> of \<^verbatim>\<open>new Array(n)\<close> for a negative \<open>n\<close>;
  \<^item> \<open>DataNotLoaded\<close>: the \<^verbatim>\<open>TypeError\<close> of reading a property of \<^verbatim>\<open>undefined\<close> data;
  \<^item> \<open>AggregateError\<close>: the error built by \<^verbatim>\<open>handlePromiseAllSettledResult\<close>.
\<close>

datatype error =
    TimeOutOfRange real
  | InvalidValueLength nat
  | SizeLimitReached
  | OffsetOutOfBounds
  | InvalidArrayLength
  | DataNotLoaded
  | AggregateError "error list"

section \<open>The fan-out aggregation helper\<close>

datatype 'v PromiseSettledResult =
    Fulfilled (settled_value: 'v)
  | Rejected (settled_reason: error)

fun isRejected :: "'v PromiseSettledResult \<Rightarrow> bool" where
  "isRejected (Rejected _) = True"
| "isRejected (Fulfilled _) = False"

definition handlePromiseAllSettledResult :: "'v PromiseSettledResult list \<Rightarrow> error + 'v list" where
  "handlePromiseAllSettledResult results =
     (let errors = filter isRejected results in
      if length errors = 0 then Inr (map settled_value results)
      else if length errors = 1 then Inl (settled_reason (errors ! 0))
      else Inl (AggregateError (map settled_reason errors)))"

section \<open>Binary search\<close>

text \<open>
  \<^verbatim>\<open>binarySearch(length, compare)\<close>: the loop over \<open>low\<close> and \<open>high\<close> (\<open>high\<close> starts at
  \<open>length - 1\<close>, so it may be \<open>-1\<close>: indices are integers). The comparator's result is only
  tested against zero, so any ordered type with a zero serves.
\<close>

function binarySearch_loop :: "(int \<Rightarrow> 'a::{zero,linorder}) \<Rightarrow> int \<Rightarrow> int \<Rightarrow> int" where
  "binarySearch_loop compare low high =
     (if low \<le> high then
        (let mid = (low + high) div 2; result = compare mid in
         if result = 0 then mid
         else if result < 0 then binarySearch_loop compare (mid + 1) high
         else binarySearch_loop compare low (mid - 1))
      else low)"
  by pat_completeness auto
termination
  by (relation "measure (\<lambda>(compare, low, high). nat (high - low + 1))") auto

declare binarySearch_loop.simps [simp del]

definition binarySearch :: "nat \<Rightarrow> (int \<Rightarrow> 'a::{zero,linorder}) \<Rightarrow> int" where
  "binarySearch len compare = binarySearch_loop compare 0 (int len - 1)"

section \<open>The byte arena\<close>

text \<open>
  \<^verbatim>\<open>getOptimalBufferLength\<close>: \<^verbatim>\<open>(1 << Math.ceil(Math.log2(length) + 0.5)) >>> 0\<close>.
  The shift is the 32-bit shift of the language: its count is taken modulo 32 and its
  result is a 32-bit word, read as unsigned by \<^verbatim>\<open>>>> 0\<close>. \<^verbatim>\<open>Math.log2\<close> is taken as the
  exact logarithm; \<^verbatim>\<open>Math.log2(0)\<close> is \<open>-\<infinity>\<close>, which the shift reads as the count 0.
\<close>

definition getOptimalBufferLength :: "nat \<Rightarrow> nat" where
  "getOptimalBufferLength len =
     (if len = 0 then 1
      else unat (push_bit (nat \<lceil>log 2 (real len) + 1 / 2\<rceil> mod 32) (1 :: 32 word)))"

text \<open>
  A \<^verbatim>\<open>ResizeableBuffer\<close>, without the bytes it holds: whether \<^verbatim>\<open>#buffer\<close> is resizable, its
  \<^verbatim>\<open>maxByteLength\<close> and \<^verbatim>\<open>byteLength\<close> (the capacity), the length of the views \<^verbatim>\<open>#bytes\<close> and
  \<^verbatim>\<open>#view\<close> (the two always cover the same window), and the logical \<^verbatim>\<open>#length\<close>.
\<close>

record ResizeableBuffer =
  buffer_resizable :: bool
  buffer_maxByteLength :: nat
  buffer_byteLength :: nat
  bytes_length :: nat
  rb_length :: nat

text \<open>The constructor with its default arguments: a resizable buffer of \<open>0x100\<close> bytes.\<close>

definition ResizeableBuffer_new :: ResizeableBuffer where
  "ResizeableBuffer_new =
     \<lparr>buffer_resizable = True, buffer_maxByteLength = 0x100000000,
      buffer_byteLength = 0x100, bytes_length = 0x100, rb_length = 0\<rparr>"

text \<open>
  The constructor as \<^verbatim>\<open>#loadData\<close> calls it, on the plain (not resizable) buffer of the
  \<open>n\<close> bytes read from the file, viewed whole.
\<close>

definition ResizeableBuffer_wrap :: "nat \<Rightarrow> ResizeableBuffer" where
  "ResizeableBuffer_wrap n =
     \<lparr>buffer_resizable = False, buffer_maxByteLength = n,
      buffer_byteLength = n, bytes_length = n, rb_length = n\<rparr>"

text \<open>
  \<^verbatim>\<open>resize\<close>. In the resizable branch the views track the buffer's length. In the other
  branch the new buffer replaces the old one before \<^verbatim>\<open>this.#bytes.set(currentBytes)\<close>, which
  raises when the old view is longer than the new buffer; \<^verbatim>\<open>#length\<close> is then not updated.
\<close>

definition resize :: "nat \<Rightarrow> ResizeableBuffer \<Rightarrow> (error + unit) \<times> ResizeableBuffer" where
  "resize newLength b =
     (if buffer_resizable b then
        if newLength > buffer_maxByteLength b then (Inl SizeLimitReached, b)
        else if newLength > buffer_byteLength b then
          (let c = min (buffer_maxByteLength b) (getOptimalBufferLength newLength) in
           (Inr (), b\<lparr>buffer_byteLength := c, bytes_length := c, rb_length := newLength\<rparr>))
        else (Inr (), b\<lparr>rb_length := newLength\<rparr>)
      else if newLength > buffer_byteLength b then
        (let maxByteLength = 0x100000000;
             c = min maxByteLength (getOptimalBufferLength newLength);
             b' = \<lparr>buffer_resizable = True, buffer_maxByteLength = maxByteLength,
                   buffer_byteLength = c, bytes_length = c, rb_length = rb_length b\<rparr> in
         if bytes_length b > c then (Inl OffsetOutOfBounds, b')
         else (Inr (), b'\<lparr>rb_length := newLength\<rparr>))
      else (Inr (), b\<lparr>rb_length := newLength\<rparr>))"

section \<open>The bucket\<close>

text \<open>
  An entry is a time and a value of \<open>valueByteLength\<close> bytes. Times are the finite
  numbers a 64-bit float holds, taken as reals: the code only compares and subtracts them.
  The arena of a loaded bucket is its \<^verbatim>\<open>ResizeableBuffer\<close> together with \<open>entries\<close>, the
  records that the first \<open>rb_length\<close> bytes of the buffer encode, one record of
  \<open>entryByteLength\<close> bytes each: the record at byte offset \<open>off\<close> is \<open>entries ! (off div
  entryByteLength)\<close>. The field \<open>entries\<close> is meaningful as long as the arena is at least as
  long as its data (\<open>rb_length \<le> bytes_length\<close>) and \<open>rb_length\<close> is the size of the records;
  every access that would leave the view is an error of the model, as it is in the code.
\<close>

type_synonym byte = "8 word"

type_synonym entry = "real \<times> byte list"

record BucketData =
  arena :: ResizeableBuffer
  entries :: "entry list"

text \<open>
  The bucket, with the content of its file \<^verbatim>\<open><bucketsPath>/<id>.bucket\<close> (\<open>None\<close> when
  the file does not exist). \<open>data = None\<close> is \<^verbatim>\<open>#data === undefined\<close>. The queue and the two
  timers are not part of the model: operations are applied one after the other.
\<close>

record ZektaTimeBucket =
  bucket_id :: int
  valueByteLength :: nat
  data :: "BucketData option"
  requireFlush :: bool
  bucket_file :: "entry list option"

definition timeRange :: nat where
  "timeRange = 512"

definition timeByteLength :: nat where
  "timeByteLength = 8"

definition getIdFromTime :: "real \<Rightarrow> int" where
  "getIdFromTime time = \<lfloor>time / real timeRange\<rfloor>"

definition getTimeFromId :: "int \<Rightarrow> real" where
  "getTimeFromId i = real_of_int i * real timeRange"

definition newZektaTimeBucket :: "int \<Rightarrow> nat \<Rightarrow> entry list option \<Rightarrow> ZektaTimeBucket" where
  "newZektaTimeBucket i v f =
     \<lparr>bucket_id = i, valueByteLength = v, data = None, requireFlush = False, bucket_file = f\<rparr>"

definition bucket_from :: "ZektaTimeBucket \<Rightarrow> real" where
  "bucket_from b = getTimeFromId (bucket_id b)"

definition bucket_to :: "ZektaTimeBucket \<Rightarrow> real" where
  "bucket_to b = getTimeFromId (bucket_id b + 1)"

definition entryByteLength :: "nat \<Rightarrow> nat" where
  "entryByteLength v = timeByteLength + v"

definition isTimeInRange :: "ZektaTimeBucket \<Rightarrow> real \<Rightarrow> bool" where
  "isTimeInRange b time \<longleftrightarrow> bucket_from b \<le> time \<and> time < bucket_to b"

text \<open>
  \<^verbatim>\<open>#loadData\<close>: the data already loaded, or the file's records in a plain buffer, or an
  empty resizable buffer when the file does not exist.
\<close>

definition loadData :: "ZektaTimeBucket \<Rightarrow> BucketData" where
  "loadData b =
     (case data b of
        Some d \<Rightarrow> d
      | None \<Rightarrow>
          (case bucket_file b of
             Some es \<Rightarrow>
               \<lparr>arena = ResizeableBuffer_wrap (length es * entryByteLength (valueByteLength b)),
                entries = es\<rparr>
           | None \<Rightarrow> \<lparr>arena = ResizeableBuffer_new, entries = []\<rparr>))"

definition getTime :: "nat \<Rightarrow> BucketData \<Rightarrow> nat \<Rightarrow> real" where
  "getTime v d entryByteOffset = fst (entries d ! (entryByteOffset div entryByteLength v))"

definition getValue :: "nat \<Rightarrow> BucketData \<Rightarrow> nat \<Rightarrow> byte list" where
  "getValue v d entryByteOffset = snd (entries d ! (entryByteOffset div entryByteLength v))"

text \<open>
  \<^verbatim>\<open>#getInsertionByteOffset\<close>. Its first read is the time of the last record; the
  \<^verbatim>\<open>DataView\<close> raises when that read is not inside the view. Every later read of an
  operation is at a lower offset.
\<close>

definition getInsertionByteOffset :: "nat \<Rightarrow> BucketData \<Rightarrow> real \<Rightarrow> error + nat" where
  "getInsertionByteOffset v d time =
     (if rb_length (arena d) = 0 then Inr 0
      else if rb_length (arena d) < entryByteLength v
              \<or> rb_length (arena d) - entryByteLength v + timeByteLength > bytes_length (arena d)
        then Inl OffsetOutOfBounds
      else
        (let lastEntryByteOffset = rb_length (arena d) - entryByteLength v in
         if time \<ge> getTime v d lastEntryByteOffset then Inr (rb_length (arena d))
         else if time \<le> getTime v d 0 then Inr 0
         else Inr (nat (binarySearch (rb_length (arena d) div entryByteLength v)
                      (\<lambda>index. getTime v d (nat index * entryByteLength v) - time))
                   * entryByteLength v)))"

function walkBackward :: "nat \<Rightarrow> BucketData \<Rightarrow> real \<Rightarrow> nat \<Rightarrow> nat" where
  "walkBackward v d from fromEntryByteOffset =
     (if fromEntryByteOffset \<ge> entryByteLength v
         \<and> from = getTime v d (fromEntryByteOffset - entryByteLength v)
      then walkBackward v d from (fromEntryByteOffset - entryByteLength v)
      else fromEntryByteOffset)"
  by pat_completeness auto
termination
  by (relation "measure (\<lambda>(v, d, from, off). off)")
     (auto simp: entryByteLength_def timeByteLength_def)

declare walkBackward.simps [simp del]

function walkForward :: "nat \<Rightarrow> BucketData \<Rightarrow> real \<Rightarrow> nat \<Rightarrow> nat" where
  "walkForward v d to toEntryByteOffset =
     (if toEntryByteOffset < rb_length (arena d) \<and> to = getTime v d toEntryByteOffset
      then walkForward v d to (toEntryByteOffset + entryByteLength v)
      else toEntryByteOffset)"
  by pat_completeness auto
termination
  by (relation "measure (\<lambda>(v, d, to, off). rb_length (arena d) - off)")
     (auto simp: entryByteLength_def timeByteLength_def)

declare walkForward.simps [simp del]

definition getTimeRangeByteOffsets ::
  "nat \<Rightarrow> BucketData \<Rightarrow> real \<Rightarrow> real \<Rightarrow> error + nat \<times> nat" where
  "getTimeRangeByteOffsets v d from to =
     (case getInsertionByteOffset v d from of
        Inl e \<Rightarrow> Inl e
      | Inr fromEntryByteOffset \<Rightarrow>
          (case getInsertionByteOffset v d to of
             Inl e \<Rightarrow> Inl e
           | Inr toEntryByteOffset \<Rightarrow>
               Inr (walkBackward v d from fromEntryByteOffset,
                    walkForward v d to toEntryByteOffset)))"

text \<open>
  What the arena holds after a \<^verbatim>\<open>resize\<close> that raised: nothing changed in the resizable
  branch; in the other branch the buffer has been replaced by a new, zero-filled one.
\<close>

definition afterFailedResize :: "nat \<Rightarrow> BucketData \<Rightarrow> ResizeableBuffer \<Rightarrow> BucketData" where
  "afterFailedResize v d a' =
     (if buffer_resizable (arena d) then d
      else \<lparr>arena = a', entries = map (\<lambda>_. (0, replicate v 0)) (entries d)\<rparr>)"

text \<open>
  \<^verbatim>\<open>#pushRaw\<close>: find the offset, lengthen the data by one record, shift the records from
  the offset on by one record (\<^verbatim>\<open>copyWithin\<close>) and write the new record into the hole.
  \<^verbatim>\<open>setFloat64\<close> and \<^verbatim>\<open>bytes.set\<close> raise when the hole is not inside the view.
\<close>

definition pushRaw :: "nat \<Rightarrow> real \<Rightarrow> byte list \<Rightarrow> BucketData \<Rightarrow> (error + nat) \<times> BucketData" where
  "pushRaw v time val d =
     (case getInsertionByteOffset v d time of
        Inl e \<Rightarrow> (Inl e, d)
      | Inr insertByteOffset \<Rightarrow>
          (case resize (rb_length (arena d) + entryByteLength v) (arena d) of
             (Inl e, a') \<Rightarrow> (Inl e, afterFailedResize v d a')
           | (Inr _, a') \<Rightarrow>
               if insertByteOffset + entryByteLength v > bytes_length a'
               then (Inl OffsetOutOfBounds, d\<lparr>arena := a'\<rparr>)
               else (Inr insertByteOffset,
                     \<lparr>arena = a',
                      entries = take (insertByteOffset div entryByteLength v) (entries d)
                                @ [(time, val)]
                                @ drop (insertByteOffset div entryByteLength v) (entries d)\<rparr>)))"

subsection \<open>Operations\<close>

text \<open>
  Each operation returns what the promise settles to and the bucket it leaves. A data
  operation loads the data first (\<^verbatim>\<open>#runDataOperation\<close>).
\<close>

definition push ::
  "real \<Rightarrow> byte list \<Rightarrow> ZektaTimeBucket \<Rightarrow> (error + unit) \<times> ZektaTimeBucket" where
  "push time val b =
     (let d = loadData b; b1 = b\<lparr>data := Some d\<rparr> in
      if \<not> isTimeInRange b time then (Inl (TimeOutOfRange time), b1)
      else if length val \<noteq> valueByteLength b then (Inl (InvalidValueLength (length val)), b1)
      else
        (case pushRaw (valueByteLength b) time val d of
           (Inl e, d') \<Rightarrow> (Inl e, b1\<lparr>data := Some d'\<rparr>)
         | (Inr _, d') \<Rightarrow> (Inr (), b1\<lparr>data := Some d', requireFlush := True\<rparr>)))"

text \<open>
  Modelled from the spec: \<^verbatim>\<open>sortTimeSeriesEntries\<close> is imported from the package
  \<^verbatim>\<open>@thingmate/time-series\<close>; the spec has the batch sorted by time. \<^verbatim>\<open>Array.prototype.sort\<close>
  is stable, as \<open>sort_key\<close> is.
\<close>

definition sortTimeSeriesEntries :: "entry list \<Rightarrow> entry list" where
  "sortTimeSeriesEntries es = sort_key fst es"

fun insert_loop ::
  "ZektaTimeBucket \<Rightarrow> entry list \<Rightarrow> BucketData \<Rightarrow> (error + unit) \<times> BucketData" where
  "insert_loop b [] d = (Inr (), d)"
| "insert_loop b ((time, val) # rest) d =
     (if \<not> isTimeInRange b time then (Inl (TimeOutOfRange time), d)
      else if length val \<noteq> valueByteLength b then (Inl (InvalidValueLength (length val)), d)
      else
        (case pushRaw (valueByteLength b) time val d of
           (Inl e, d') \<Rightarrow> (Inl e, d')
         | (Inr _, d') \<Rightarrow> insert_loop b rest d'))"

text \<open>
  \<^verbatim>\<open>insert\<close> sorts the caller's array in place: the third component of the result is the
  array as the call leaves it.
\<close>

definition bucket_insert ::
  "entry list \<Rightarrow> ZektaTimeBucket \<Rightarrow> (error + unit) \<times> ZektaTimeBucket \<times> entry list" where
  "bucket_insert es b =
     (let d = loadData b; b1 = b\<lparr>data := Some d\<rparr> in
      if length es = 0 then (Inr (), b1, es)
      else
        (let sorted = sortTimeSeriesEntries es in
         case insert_loop b sorted d of
           (Inl e, d') \<Rightarrow> (Inl e, b1\<lparr>data := Some d'\<rparr>, sorted)
         | (Inr _, d') \<Rightarrow> (Inr (), b1\<lparr>data := Some d', requireFlush := True\<rparr>, sorted)))"

definition readEntry :: "nat \<Rightarrow> BucketData \<Rightarrow> nat \<Rightarrow> entry" where
  "readEntry v d entryByteOffset = (getTime v d entryByteOffset, getValue v d entryByteOffset)"

text \<open>
  \<^verbatim>\<open>select\<close>, with the options already normalized to \<open>asc\<close>, \<open>from\<close> and \<open>to\<close>. The two
  loops fill \<^verbatim>\<open>entries[entryIndex]\<close> for \<open>entryIndex\<close> from 0; \<^verbatim>\<open>new Array(n)\<close> raises for a
  negative \<open>n\<close>.
\<close>

definition select ::
  "bool \<Rightarrow> real \<Rightarrow> real \<Rightarrow> ZektaTimeBucket \<Rightarrow> (error + entry list) \<times> ZektaTimeBucket" where
  "select asc from to b =
     (if from \<ge> bucket_to b \<or> to < bucket_from b then (Inr [], b)
      else
        (let d = loadData b; b1 = b\<lparr>data := Some d\<rparr>; v = valueByteLength b in
         case getTimeRangeByteOffsets v d from to of
           Inl e \<Rightarrow> (Inl e, b1)
         | Inr (fromEntryByteOffset, toEntryByteOffset) \<Rightarrow>
             if toEntryByteOffset < fromEntryByteOffset then (Inl InvalidArrayLength, b1)
             else
               (let n = (toEntryByteOffset - fromEntryByteOffset) div entryByteLength v in
                if asc then
                  (Inr (map (\<lambda>entryIndex.
                          readEntry v d (fromEntryByteOffset + entryIndex * entryByteLength v))
                        [0..<n]), b1)
                else
                  (Inr (map (\<lambda>entryIndex.
                          readEntry v d (toEntryByteOffset - entryByteLength v
                                         - entryIndex * entryByteLength v))
                        [0..<n]), b1))))"

text \<open>
  \<^verbatim>\<open>delete\<close>: \<^verbatim>\<open>copyWithin(from, to, length)\<close> moves the records from \<open>to\<close> on to \<open>from\<close>, and
  \<^verbatim>\<open>resize\<close> sets the length to \<open>length - (to - from)\<close>. When \<^verbatim>\<open>resize\<close> raises, the length
  is as before and the records after the moved ones are untouched. (When \<open>to\<close> is below
  \<open>from\<close>, which needs a range with its bounds swapped, the new length is larger than
  before and the copy runs into the slack of the arena; the records are those below when
  the slack suffices.)
\<close>

definition bucket_delete ::
  "real \<Rightarrow> real \<Rightarrow> ZektaTimeBucket \<Rightarrow> (error + unit) \<times> ZektaTimeBucket" where
  "bucket_delete from to b =
     (if from \<ge> bucket_to b \<or> to < bucket_from b then (Inr (), b)
      else
        (let d = loadData b; b1 = b\<lparr>data := Some d\<rparr>; v = valueByteLength b in
         case getTimeRangeByteOffsets v d from to of
           Inl e \<Rightarrow> (Inl e, b1)
         | Inr (fromEntryByteOffset, toEntryByteOffset) \<Rightarrow>
             if fromEntryByteOffset = toEntryByteOffset then (Inr (), b1)
             else
               (let es = take (fromEntryByteOffset div entryByteLength v) (entries d)
                         @ drop (toEntryByteOffset div entryByteLength v) (entries d);
                    newLength = (if fromEntryByteOffset \<le> toEntryByteOffset
                                 then rb_length (arena d) - (toEntryByteOffset - fromEntryByteOffset)
                                 else rb_length (arena d) + (fromEntryByteOffset - toEntryByteOffset)) in
                case resize newLength (arena d) of
                  (Inl e, a') \<Rightarrow>
                    (Inl e, b1\<lparr>data := Some (afterFailedResize v
                                   (d\<lparr>entries := take (length (entries d))
                                                    (es @ drop (length es) (entries d))\<rparr>) a')\<rparr>)
                | (Inr _, a') \<Rightarrow>
                    (Inr (), b1\<lparr>data := Some \<lparr>arena = a', entries = es\<rparr>,
                                requireFlush := True\<rparr>))))"

definition bucket_drop :: "ZektaTimeBucket \<Rightarrow> (error + unit) \<times> ZektaTimeBucket" where
  "bucket_drop b =
     (let d = loadData b; b1 = b\<lparr>data := Some d\<rparr> in
      if rb_length (arena d) = 0 then (Inr (), b1)
      else
        (case resize 0 (arena d) of
           (Inl e, a') \<Rightarrow> (Inl e, b1\<lparr>data := Some (afterFailedResize (valueByteLength b) d a')\<rparr>)
         | (Inr _, a') \<Rightarrow>
             (Inr (), b1\<lparr>data := Some \<lparr>arena = a', entries = []\<rparr>, requireFlush := True\<rparr>)))"

text \<open>
  \<^verbatim>\<open>flush\<close>. It does not load the data. The calls to the file system are taken to succeed:
  \<^verbatim>\<open>rm\<close> with \<^verbatim>\<open>force\<close> leaves no file, \<^verbatim>\<open>writeFile\<close> leaves the first \<open>rb_length\<close> bytes of the
  arena. Reading \<^verbatim>\<open>this.#data!.length\<close> of data that is not loaded raises a \<^verbatim>\<open>TypeError\<close>.
\<close>

definition flush :: "bool \<Rightarrow> ZektaTimeBucket \<Rightarrow> (error + unit) \<times> ZektaTimeBucket" where
  "flush unload b =
     (if requireFlush b then
        (case data b of
           None \<Rightarrow> (Inl DataNotLoaded, b)
         | Some d \<Rightarrow>
             (let b1 = b\<lparr>bucket_file :=
                            (if rb_length (arena d) = 0 then None
                             else Some (take (rb_length (arena d)
                                              div entryByteLength (valueByteLength b)) (entries d))),
                          requireFlush := False\<rparr> in
              (Inr (), if unload then b1\<lparr>data := None\<rparr> else b1)))
      else (Inr (), if unload then b\<lparr>data := None\<rparr> else b))"

section \<open>The series\<close>

record ZektaTimeSeries =
  series_valueByteLength :: nat
  buckets :: "ZektaTimeBucket list"

definition getTimeRangeBucketIndexesInArray ::
  "ZektaTimeSeries \<Rightarrow> real \<Rightarrow> real \<Rightarrow> int \<times> int" where
  "getTimeRangeBucketIndexesInArray s from to =
     (let fromBucketIndex = getIdFromTime from; toBucketIndex = getIdFromTime to in
      (binarySearch (length (buckets s))
         (\<lambda>indexInArray. bucket_id (buckets s ! nat indexInArray) - fromBucketIndex),
       min (int (length (buckets s)))
         (binarySearch (length (buckets s))
            (\<lambda>indexInArray. bucket_id (buckets s ! nat indexInArray) - toBucketIndex) + 1)))"

definition settle :: "error + 'v \<Rightarrow> 'v PromiseSettledResult" where
  "settle r = (case r of Inl e \<Rightarrow> Rejected e | Inr x \<Rightarrow> Fulfilled x)"

text \<open>
  \<^verbatim>\<open>ZektaTimeSeries.select\<close>: one \<^verbatim>\<open>select\<close> per bucket of the index range, from the left
  when \<open>asc\<close>, from the right otherwise; the settled results go through
  \<^verbatim>\<open>handlePromiseAllSettledResult\<close> and are flattened. Each bucket is left as its own
  \<^verbatim>\<open>select\<close> leaves it.
\<close>

definition series_select ::
  "bool \<Rightarrow> real \<Rightarrow> real \<Rightarrow> ZektaTimeSeries \<Rightarrow> (error + entry list) \<times> ZektaTimeSeries" where
  "series_select asc from to s =
     (case getTimeRangeBucketIndexesInArray s from to of
        (fromIndexInArray, toIndexInArray) \<Rightarrow>
          (let range = [nat fromIndexInArray..<nat toIndexInArray];
               order = (if asc then range else rev range);
               promises = map (\<lambda>i. fst (select asc from to (buckets s ! i))) order;
               s' = s\<lparr>buckets :=
                      map (\<lambda>i. if i \<in> set range then snd (select asc from to (buckets s ! i))
                                else buckets s ! i)
                        [0..<length (buckets s)]\<rparr> in
           (map_sum id concat (handlePromiseAllSettledResult (map settle promises)), s')))"

section \<open>Auxiliary definitions\<close>

text \<open>The length in bytes of a bucket's data, once loaded.\<close>

definition dataLength :: "ZektaTimeBucket \<Rightarrow> nat" where
  "dataLength b = rb_length (arena (loadData b))"

text \<open>
  Invariant I3 of the data model for a bucket: the length of its data is a whole number of
  records.
\<close>

definition wholeEntries :: "ZektaTimeBucket \<Rightarrow> bool" where
  "wholeEntries b \<longleftrightarrow> entryByteLength (valueByteLength b) dvd dataLength b"

text \<open>
  The arena of a bucket as the two constructors and \<^verbatim>\<open>resize\<close> keep it while the data fits:
  the data is not longer than the views, the views cover the whole buffer, and a resizable
  buffer has the maximum length \<open>2\<^sup>3\<^sup>2\<close>.
\<close>

definition arenaInvariant :: "ResizeableBuffer \<Rightarrow> bool" where
  "arenaInvariant a \<longleftrightarrow>
     rb_length a \<le> bytes_length a \<and> bytes_length a = buffer_byteLength a
     \<and> (\<not> buffer_resizable a
        \<or> (buffer_maxByteLength a = 0x100000000
           \<and> buffer_byteLength a \<le> buffer_maxByteLength a))"

text \<open>
  The loaded data of a bucket with values of \<open>v\<close> bytes: the length is that of the records
  (invariant I3), the arena holds them, and they are sorted by time (invariant I1).
\<close>

definition dataInvariant :: "nat \<Rightarrow> BucketData \<Rightarrow> bool" where
  "dataInvariant v d \<longleftrightarrow>
     rb_length (arena d) = length (entries d) * entryByteLength v
     \<and> arenaInvariant (arena d)
     \<and> sorted (map fst (entries d))"

text \<open>An insertion index for \<open>t\<close>: every earlier time is at most \<open>t\<close>, every later one at least.\<close>

definition insertionIndex :: "entry list \<Rightarrow> real \<Rightarrow> nat \<Rightarrow> bool" where
  "insertionIndex es t k \<longleftrightarrow>
     k \<le> length es \<and> (\<forall>j < k. fst (es ! j) \<le> t) \<and> (\<forall>j. k \<le> j \<and> j < length es \<longrightarrow> t \<le> fst (es ! j))"

text \<open>
  The invariant of a bucket, on its data once loaded: the data invariant, and every time is
  in the range of the bucket (invariant I2).
\<close>

definition bucketInvariant :: "ZektaTimeBucket \<Rightarrow> bool" where
  "bucketInvariant b \<longleftrightarrow>
     dataInvariant (valueByteLength b) (loadData b)
     \<and> list_all (\<lambda>e. isTimeInRange b (fst e)) (entries (loadData b))"

text \<open>
  What \<^verbatim>\<open>flush\<close> leaves on disk for data \<open>d\<close>: no file when the length is 0, otherwise the
  records of the first \<open>rb_length\<close> bytes.
\<close>

definition dataFile :: "nat \<Rightarrow> BucketData \<Rightarrow> entry list option" where
  "dataFile v d =
     (if rb_length (arena d) = 0 then None
      else Some (take (rb_length (arena d) div entryByteLength v) (entries d)))"

text \<open>
  Invariant I6 of the data model (the dirty discipline): the require-flush flag is set
  whenever the data, once loaded, is not what the file holds.
\<close>

definition flushDiscipline :: "ZektaTimeBucket \<Rightarrow> bool" where
  "flushDiscipline b \<longleftrightarrow>
     requireFlush b \<or> bucket_file b = dataFile (valueByteLength b) (loadData b)"

text \<open>A sequence of \<^verbatim>\<open>push\<close> calls, each one awaited; it stops at the first that fails.\<close>

fun pushAll :: "entry list \<Rightarrow> ZektaTimeBucket \<Rightarrow> (error + unit) \<times> ZektaTimeBucket" where
  "pushAll [] b = (Inr (), b)"
| "pushAll ((time, val) # rest) b =
     (case push time val b of
        (Inl e, b') \<Rightarrow> (Inl e, b')
      | (Inr _, b') \<Rightarrow> pushAll rest b')"

text \<open>
  An integer search for \<open>\<lceil>log\<^sub>2 n + 1/2\<rceil>\<close>, the least \<open>k\<close> with \<open>2 n\<^sup>2 \<le> 4\<^sup>k\<close>; it
  makes \<open>getOptimalBufferLength\<close> computable (\<open>getOptimalBufferLength_code\<close>).
\<close>

function ceilLog2Half_from :: "nat \<Rightarrow> nat \<Rightarrow> nat" where
  "ceilLog2Half_from k n = (if 2 * n\<^sup>2 \<le> 4 ^ k then k else ceilLog2Half_from (Suc k) n)"
  by pat_completeness auto
termination
proof (relation "measure (\<lambda>(k, n). 2 * n\<^sup>2 - k)")
  show "wf (measure (\<lambda>(k, n). 2 * n\<^sup>2 - k))" by simp
next
  fix k n :: nat
  assume "\<not> 2 * n\<^sup>2 \<le> 4 ^ k"
  moreover have "k < 4 ^ k" by (induction k) auto
  ultimately show "((Suc k, n), (k, n)) \<in> measure (\<lambda>(k, n). 2 * n\<^sup>2 - k)" by simp
qed

declare ceilLog2Half_from.simps [simp del]

text \<open>
  The comparator that the documentation of \<^verbatim>\<open>binarySearch\<close> prescribes for a collection and
  a value, \<^verbatim>\<open>(index) => collection[index] - value\<close>, and the insertion of its example,
  \<^verbatim>\<open>values.splice(index, 0, valueToInsert)\<close>.
\<close>

definition compareWith :: "'a::linordered_ab_group_add list \<Rightarrow> 'a \<Rightarrow> int \<Rightarrow> 'a" where
  "compareWith collection v index = collection ! nat index - v"

definition splice :: "nat \<Rightarrow> 'a \<Rightarrow> 'a list \<Rightarrow> 'a list" where
  "splice index v vs = take index vs @ [v] @ drop index vs"

section \<open>The arena: properties\<close>

lemma ceil_log2_half:
  assumes "0 < n" "2 * n\<^sup>2 \<le> 4 ^ k" "4 ^ k < 8 * n\<^sup>2"
  shows "\<lceil>log 2 (real n) + 1 / 2\<rceil> = int k"
proof -
  have n: "0 < real n" using assms(1) by simp
  have e1: "log 2 (real (2 * n\<^sup>2)) = 2 * (log 2 (real n) + 1 / 2)"
    using n by (simp add: log_mult log_nat_power)
  have e2: "log 2 (real (8 * n\<^sup>2)) = 2 * (log 2 (real n) + 1 / 2) + 2"
  proof -
    have "log 2 (8::real) = 3" using log_pow_cancel[of 2 3] by simp
    then show ?thesis using n by (simp add: log_mult log_nat_power)
  qed
  have e3: "log 2 (real ((4::nat) ^ k)) = 2 * real k"
  proof -
    have "(4::real) ^ k = 2 ^ (2 * k)" by (simp add: power_mult)
    then show ?thesis by simp
  qed
  have "log 2 (real (2 * n\<^sup>2)) \<le> log 2 (real ((4::nat) ^ k))"
    using assms by (intro iffD2[OF log_le_cancel_iff]) (auto simp del: of_nat_mult of_nat_power)
  then have ub: "log 2 (real n) + 1 / 2 \<le> real k" unfolding e1 e3 by simp
  have "log 2 (real ((4::nat) ^ k)) < log 2 (real (8 * n\<^sup>2))"
    using assms by (intro iffD2[OF log_less_cancel_iff]) (auto simp del: of_nat_mult of_nat_power)
  then have lb: "real k - 1 < log 2 (real n) + 1 / 2" unfolding e2 e3 by simp
  show ?thesis
    by (rule ceiling_unique) (use ub lb in auto)
qed

lemma ceilLog2Half_from_spec:
  assumes "0 < n" "k = 0 \<or> 4 ^ k < 8 * n\<^sup>2"
  shows "2 * n\<^sup>2 \<le> 4 ^ ceilLog2Half_from k n \<and> 4 ^ ceilLog2Half_from k n < 8 * n\<^sup>2"
  using assms
proof (induction k n rule: ceilLog2Half_from.induct)
  case (1 k n)
  show ?case
  proof (cases "2 * n\<^sup>2 \<le> 4 ^ k")
    case True
    have "(4::nat) ^ k < 8 * n\<^sup>2"
    proof (cases "k = 0")
      case True
      have "1 \<le> n\<^sup>2" using \<open>0 < n\<close> by (simp add: Suc_leI)
      then show ?thesis using True by simp
    next
      case False then show ?thesis using "1.prems" by simp
    qed
    then show ?thesis using True by (subst (1 2) ceilLog2Half_from.simps) simp
  next
    case False
    then have "(4::nat) ^ Suc k < 8 * n\<^sup>2" by simp
    then have "2 * n\<^sup>2 \<le> 4 ^ ceilLog2Half_from (Suc k) n \<and> 4 ^ ceilLog2Half_from (Suc k) n < 8 * n\<^sup>2"
      using "1.IH"[OF False \<open>0 < n\<close>] by blast
    then show ?thesis using False by (subst (1 2) ceilLog2Half_from.simps) simp
  qed
qed

lemma getOptimalBufferLength_code [code]:
  "getOptimalBufferLength len =
     (if len = 0 then 1 else unat (push_bit (ceilLog2Half_from 0 len mod 32) (1 :: 32 word)))"
proof (cases "len = 0")
  case True then show ?thesis by (simp add: getOptimalBufferLength_def)
next
  case False
  then have "\<lceil>log 2 (real len) + 1 / 2\<rceil> = int (ceilLog2Half_from 0 len)"
    using ceilLog2Half_from_spec[of len 0] by (intro ceil_log2_half) auto
  then show ?thesis using False by (simp add: getOptimalBufferLength_def)
qed


text \<open>
  C5. A resize beyond \<open>2\<^sup>3\<^sup>2\<close> bytes is to fail with the capacity error for every buffer.
  The resizable branch of \<^verbatim>\<open>resize\<close> has the check; the other branch does not: a buffer
  wrapping the plain buffer of an empty file accepts the length \<open>2\<^sup>3\<^sup>2 + 1\<close>, with a new
  buffer of 2 bytes.
\<close>

theorem resize_wrapped_beyond_limit_returns:
  "resize (2 ^ 32 + 1) (ResizeableBuffer_wrap 0) =
     (Inr (), \<lparr>buffer_resizable = True, buffer_maxByteLength = 2 ^ 32,
               buffer_byteLength = 2, bytes_length = 2, rb_length = 2 ^ 32 + 1\<rparr>)"
proof -
  have "\<lceil>log 2 (real (2 ^ 32 + 1)) + 1 / 2\<rceil> = int 33"
    by (rule ceil_log2_half) simp_all
  then have "getOptimalBufferLength (2 ^ 32 + 1) = 2"
    by (simp add: getOptimalBufferLength_def)
  then show ?thesis
    by (simp add: resize_def ResizeableBuffer_wrap_def)
qed

text \<open>
  C6. A growing resize is to set the capacity to \<open>min(2\<^sup>3\<^sup>2, 1 << \<lceil>log\<^sub>2 n + 1/2\<rceil>)\<close> and
  never to lower it. For \<open>n = 2\<^sup>3\<^sup>1\<close> the shift count is 32, which the 32-bit shift takes
  as 0: the fresh buffer of 256 bytes is resized to 1 byte, below its length.
\<close>

theorem resize_fresh_to_2_31_shrinks_capacity:
  "resize (2 ^ 31) ResizeableBuffer_new =
     (Inr (), \<lparr>buffer_resizable = True, buffer_maxByteLength = 2 ^ 32,
               buffer_byteLength = 1, bytes_length = 1, rb_length = 2 ^ 31\<rparr>)"
proof -
  have "\<lceil>log 2 (real (2 ^ 31)) + 1 / 2\<rceil> = int 32"
    by (rule ceil_log2_half) simp_all
  then have "getOptimalBufferLength (2 ^ 31) = 1"
    by (simp add: getOptimalBufferLength_def)
  then show ?thesis
    by (simp add: resize_def ResizeableBuffer_new_def)
qed

section \<open>Binary search: properties\<close>

lemma binarySearch_loop_spec:
  fixes compare :: "int \<Rightarrow> 'a::{zero,linorder}"
  assumes "0 \<le> low" "high < n" "low \<le> high + 1"
    and "\<forall>i. 0 \<le> i \<and> i < low \<longrightarrow> compare i < 0"
    and "\<forall>i. high < i \<and> i < n \<longrightarrow> 0 < compare i"
    and "\<forall>i j. 0 \<le> i \<and> i \<le> j \<and> j < n \<longrightarrow> compare i \<le> compare j"
  shows "low \<le> binarySearch_loop compare low high \<and> binarySearch_loop compare low high \<le> high + 1
     \<and> ((binarySearch_loop compare low high \<le> high \<and> compare (binarySearch_loop compare low high) = 0)
        \<or> ((\<forall>i. 0 \<le> i \<and> i < binarySearch_loop compare low high \<longrightarrow> compare i < 0)
           \<and> (\<forall>i. binarySearch_loop compare low high \<le> i \<and> i < n \<longrightarrow> 0 < compare i)))"
  using assms
proof (induction compare low high rule: binarySearch_loop.induct)
  case (1 compare low high)
  define mid where "mid = (low + high) div 2"
  note mono = "1.prems"(6)
  show ?case
  proof (cases "low \<le> high")
    case False
    then have "binarySearch_loop compare low high = low"
      by (subst binarySearch_loop.simps) simp
    moreover have "high + 1 = low" using False "1.prems" by simp
    ultimately show ?thesis using "1.prems"(4,5) by auto
  next
    case True
    then have mid: "low \<le> mid" "mid \<le> high" unfolding mid_def by auto
    consider (eq) "compare mid = 0" | (lt) "compare mid < 0" | (gt) "0 < compare mid"
      using not_less_iff_gr_or_eq by blast
    then show ?thesis
    proof cases
      case eq
      then have "binarySearch_loop compare low high = mid"
        using True by (subst binarySearch_loop.simps) (simp add: mid_def Let_def)
      then show ?thesis using eq mid by auto
    next
      case lt
      have ne: "compare mid \<noteq> 0" using lt by simp
      have r: "binarySearch_loop compare low high = binarySearch_loop compare (mid + 1) high"
        using True ne lt by (subst binarySearch_loop.simps) (simp add: mid_def Let_def)
      have below: "\<forall>i. 0 \<le> i \<and> i < mid + 1 \<longrightarrow> compare i < 0"
      proof (intro allI impI)
        fix i assume i: "0 \<le> i \<and> i < mid + 1"
        then have "compare i \<le> compare mid"
          using mono mid "1.prems"(2) by auto
        then show "compare i < 0" using lt by simp
      qed
      have ih: "mid + 1 \<le> binarySearch_loop compare (mid + 1) high \<and>
           binarySearch_loop compare (mid + 1) high \<le> high + 1 \<and>
           (binarySearch_loop compare (mid + 1) high \<le> high \<and>
            compare (binarySearch_loop compare (mid + 1) high) = 0 \<or>
            (\<forall>i. 0 \<le> i \<and> i < binarySearch_loop compare (mid + 1) high \<longrightarrow> compare i < 0) \<and>
            (\<forall>i. binarySearch_loop compare (mid + 1) high \<le> i \<and> i < n \<longrightarrow> 0 < compare i))"
        using "1.IH"(1)[OF True mid_def refl ne _ _ "1.prems"(2) _ below "1.prems"(5) mono]
          lt mid "1.prems"(1) by (simp add: mid_def)
      show ?thesis unfolding r using ih mid by auto
    next
      case gt
      have ne: "compare mid \<noteq> 0" "\<not> compare mid < 0" using gt by auto
      have r: "binarySearch_loop compare low high = binarySearch_loop compare low (mid - 1)"
        using True ne by (subst binarySearch_loop.simps) (simp add: mid_def Let_def)
      have above: "\<forall>i. mid - 1 < i \<and> i < n \<longrightarrow> 0 < compare i"
      proof (intro allI impI)
        fix i assume i: "mid - 1 < i \<and> i < n"
        then have "compare mid \<le> compare i"
          using mono mid "1.prems"(1) by auto
        then show "0 < compare i" using gt by simp
      qed
      have ih: "low \<le> binarySearch_loop compare low (mid - 1) \<and>
           binarySearch_loop compare low (mid - 1) \<le> mid - 1 + 1 \<and>
           (binarySearch_loop compare low (mid - 1) \<le> mid - 1 \<and>
            compare (binarySearch_loop compare low (mid - 1)) = 0 \<or>
            (\<forall>i. 0 \<le> i \<and> i < binarySearch_loop compare low (mid - 1) \<longrightarrow> compare i < 0) \<and>
            (\<forall>i. binarySearch_loop compare low (mid - 1) \<le> i \<and> i < n \<longrightarrow> 0 < compare i))"
        using "1.IH"(2)[OF True mid_def refl ne "1.prems"(1) _ _ "1.prems"(4) above mono]
          mid "1.prems"(2) by (simp add: mid_def)
      show ?thesis unfolding r using ih mid by auto
    qed
  qed
qed



lemma binarySearch_spec:
  fixes compare :: "int \<Rightarrow> 'a::{zero,linorder}"
  assumes mono: "\<forall>i j. 0 \<le> i \<and> i \<le> j \<and> j < int n \<longrightarrow> compare i \<le> compare j"
  shows "0 \<le> binarySearch n compare \<and> binarySearch n compare \<le> int n
     \<and> ((binarySearch n compare < int n \<and> compare (binarySearch n compare) = 0)
        \<or> ((\<forall>i. 0 \<le> i \<and> i < binarySearch n compare \<longrightarrow> compare i < 0)
           \<and> (\<forall>i. binarySearch n compare \<le> i \<and> i < int n \<longrightarrow> 0 < compare i)))"
proof -
  have a: "\<forall>i. 0 \<le> i \<and> i < (0::int) \<longrightarrow> compare i < 0" by auto
  have b: "\<forall>i. int n - 1 < i \<and> i < int n \<longrightarrow> 0 < compare i" by auto
  have "(0::int) \<le> 0" "int n - 1 < int n" "(0::int) \<le> int n - 1 + 1" by simp_all
  from binarySearch_loop_spec[OF this a b mono]
  show ?thesis unfolding binarySearch_def by auto
qed

lemma binarySearch_bounds:
  fixes compare :: "int \<Rightarrow> 'a::{zero,linorder}"
  assumes mono: "\<forall>i j. 0 \<le> i \<and> i \<le> j \<and> j < int n \<longrightarrow> compare i \<le> compare j"
  shows "0 \<le> binarySearch n compare" "binarySearch n compare \<le> int n"
    "\<And>i. 0 \<le> i \<Longrightarrow> i < binarySearch n compare \<Longrightarrow> compare i \<le> 0"
    "\<And>i. binarySearch n compare \<le> i \<Longrightarrow> i < int n \<Longrightarrow> 0 \<le> compare i"
proof -
  let ?k = "binarySearch n compare"
  note s = binarySearch_spec[OF mono]
  show "0 \<le> ?k" "?k \<le> int n" using s by auto
  show "compare i \<le> 0" if "0 \<le> i" "i < ?k" for i
  proof -
    from s consider "?k < int n \<and> compare ?k = 0" | "\<forall>i. 0 \<le> i \<and> i < ?k \<longrightarrow> compare i < 0"
      by blast
    then show ?thesis
    proof cases
      case 1
      then have "compare i \<le> compare ?k" using mono[rule_format, of i ?k] that by simp
      then show ?thesis using 1 by simp
    next
      case 2 then show ?thesis using that by (simp add: less_imp_le)
    qed
  qed
  show "0 \<le> compare i" if "?k \<le> i" "i < int n" for i
  proof -
    from s consider "?k < int n \<and> compare ?k = 0" | "\<forall>i. ?k \<le> i \<and> i < int n \<longrightarrow> 0 < compare i"
      by blast
    then show ?thesis
    proof cases
      case 1
      then have "compare ?k \<le> compare i" using mono[rule_format, of ?k i] that s by simp
      then show ?thesis using 1 by simp
    next
      case 2 then show ?thesis using that by (simp add: less_imp_le)
    qed
  qed
qed

lemma compareWith_mono:
  assumes "sorted items"
  shows "\<forall>i j. 0 \<le> i \<and> i \<le> j \<and> j < int (length items)
           \<longrightarrow> compareWith items key i \<le> compareWith items key j"
proof (intro allI impI)
  fix i j :: int
  assume h: "0 \<le> i \<and> i \<le> j \<and> j < int (length items)"
  then have "items ! nat i \<le> items ! nat j"
    using assms by (intro sorted_nth_mono) auto
  then show "compareWith items key i \<le> compareWith items key j"
    by (simp add: compareWith_def)
qed

lemma sorted_splice:
  assumes "sorted items" "k \<le> length items"
    and "\<And>i. i < k \<Longrightarrow> items ! i \<le> key"
    and "\<And>i. k \<le> i \<Longrightarrow> i < length items \<Longrightarrow> key \<le> items ! i"
  shows "sorted (splice k key items)"
proof -
  have a: "\<forall>x \<in> set (take k items). x \<le> key"
    using assms(2,3) by (auto simp: in_set_conv_nth)
  have b: "\<forall>y \<in> set (drop k items). key \<le> y"
  proof
    fix y assume "y \<in> set (drop k items)"
    then obtain i where "i < length items - k" "y = items ! (k + i)"
      by (auto simp: in_set_conv_nth)
    then show "key \<le> y" using assms(4)[of "k + i"] by simp
  qed
  have c: "\<forall>x \<in> set (take k items). \<forall>y \<in> set (drop k items). x \<le> y"
    using a b by (meson order_trans)
  show ?thesis
    unfolding splice_def
    using assms(1) a b c by (simp add: sorted_append )
qed

text \<open>
  C7, as the code has it: for a sorted collection and the comparator of a key,
  \<^verbatim>\<open>binarySearch\<close> returns an index between 0 and the length at which the key can be
  inserted with the order kept; when no item equals the key it is the smallest such index;
  when an item equals the key it is the index of an item equal to the key (the midpoint
  where the loop meets one).
\<close>

theorem binarySearch_insertion_index:
  fixes items :: "'a::linordered_ab_group_add list"
  assumes "sorted items"
  shows "0 \<le> binarySearch (length items) (compareWith items key)
       \<and> binarySearch (length items) (compareWith items key) \<le> int (length items)
       \<and> sorted (splice (nat (binarySearch (length items) (compareWith items key))) key items)
       \<and> (key \<notin> set items \<longrightarrow>
            (\<forall>j < nat (binarySearch (length items) (compareWith items key)).
               \<not> sorted (splice j key items)))
       \<and> (key \<in> set items \<longrightarrow>
            binarySearch (length items) (compareWith items key) < int (length items)
            \<and> items ! nat (binarySearch (length items) (compareWith items key)) = key)"
proof -
  let ?k = "binarySearch (length items) (compareWith items key)"
  note mono = compareWith_mono[OF assms, of key]
  note b = binarySearch_bounds[OF mono]
  have le: "items ! i \<le> key" if "i < nat ?k" for i
  proof -
    have "int i < ?k" using that by linarith
    then have "compareWith items key (int i) \<le> 0" using b(3)[of "int i"] by simp
    then show ?thesis by (simp add: compareWith_def)
  qed
  have ge: "key \<le> items ! i" if "nat ?k \<le> i" "i < length items" for i
  proof -
    have "?k \<le> int i" using that by linarith
    then have "0 \<le> compareWith items key (int i)" using b(4)[of "int i"] that(2) by simp
    then show ?thesis by (simp add: compareWith_def)
  qed
  have s: "sorted (splice (nat ?k) key items)"
    using b(1,2) by (intro sorted_splice assms le ge) auto
  have m: "\<not> sorted (splice j key items)" if "key \<notin> set items" "j < nat ?k" for j
  proof -
    have nz: "compareWith items key i \<noteq> 0" if "0 \<le> i" "i < int (length items)" for i
    proof
      assume "compareWith items key i = 0"
      then have "items ! nat i = key" by (simp add: compareWith_def)
      moreover have "nat i < length items" using that by simp
      ultimately show False using \<open>key \<notin> set items\<close> nth_mem by blast
    qed
    have "\<forall>i. 0 \<le> i \<and> i < ?k \<longrightarrow> compareWith items key i < 0"
      using binarySearch_spec[OF mono] nz b(1) by blast
    moreover have "int j < ?k" using that(2) by linarith
    ultimately have "compareWith items key (int j) < 0" by simp
    then have lt: "items ! j < key" by (simp add: compareWith_def)
    have jl: "j < length items" using that(2) b(2) by simp
    then have "drop j items = items ! j # drop (Suc j) items"
      by (simp add: Cons_nth_drop_Suc)
    then have "splice j key items = take j items @ key # items ! j # drop (Suc j) items"
      by (simp add: splice_def)
    then show ?thesis using lt by (auto simp: sorted_append)
  qed
  have t: "?k < int (length items) \<and> items ! nat ?k = key" if "key \<in> set items"
  proof -
    from that obtain i where i: "i < length items" "items ! i = key"
      by (auto simp: in_set_conv_nth)
    have c0: "compareWith items key (int i) = 0" using i(2) by (simp add: compareWith_def)
    from binarySearch_spec[OF mono]
    consider (hit) "?k < int (length items) \<and> compareWith items key ?k = 0"
      | (miss) "(\<forall>i. 0 \<le> i \<and> i < ?k \<longrightarrow> compareWith items key i < 0)
              \<and> (\<forall>i. ?k \<le> i \<and> i < int (length items) \<longrightarrow> 0 < compareWith items key i)"
      by blast
    then show ?thesis
    proof cases
      case hit
      then show ?thesis by (simp add: compareWith_def)
    next
      case miss
      have "compareWith items key (int i) \<noteq> 0"
      proof (cases "int i < ?k")
        case True
        then have "compareWith items key (int i) < 0" using miss by simp
        then show ?thesis by simp
      next
        case False
        then have "0 < compareWith items key (int i)" using miss i(1) by simp
        then show ?thesis by simp
      qed
      then show ?thesis using c0 by simp
    qed
  qed
  show ?thesis using b(1,2) s m t by blast
qed

theorem binarySearch_insertion_index_witness:
  "sorted [1, 3, 5 :: int]
   \<and> binarySearch (length [1, 3, 5 :: int]) (compareWith [1, 3, 5 :: int] 4) = 2
   \<and> sorted (splice 2 4 [1, 3, 5 :: int])
   \<and> 4 \<notin> set [1, 3, 5 :: int]
   \<and> \<not> sorted (splice 0 4 [1, 3, 5 :: int]) \<and> \<not> sorted (splice 1 4 [1, 3, 5 :: int])
   \<and> 3 \<in> set [1, 3, 5 :: int]
   \<and> binarySearch (length [1, 3, 5 :: int]) (compareWith [1, 3, 5 :: int] 3) = 1
   \<and> [1, 3, 5 :: int] ! 1 = 3"
proof -
  have e: "binarySearch (length [1, 3, 5 :: int]) (compareWith [1, 3, 5 :: int] 4) = 2"
    by (simp add: binarySearch_def binarySearch_loop.simps compareWith_def)
  have e3: "binarySearch (length [1, 3, 5 :: int]) (compareWith [1, 3, 5 :: int] 3) = 1"
    by (simp add: binarySearch_def binarySearch_loop.simps compareWith_def)
  have s: "sorted [1, 3, 5 :: int]" by simp
  show ?thesis
    using binarySearch_insertion_index[OF s, of 4] binarySearch_insertion_index[OF s, of 3]
    unfolding e e3 by (simp add: splice_def)
qed

text \<open>
  On \<open>[1, 1, 1]\<close> and the key 1 the search returns 1, although inserting at 0 keeps the
  order too: the index returned is not the smallest.
\<close>

theorem binarySearch_not_smallest_on_ties:
  "binarySearch (length [1, 1, 1 :: int]) (compareWith [1, 1, 1 :: int] 1) = 1
   \<and> sorted (splice 0 1 [1, 1, 1 :: int])"
  by (simp add: binarySearch_def binarySearch_loop.simps compareWith_def splice_def)

section \<open>The fan-out aggregation helper: properties\<close>

lemma filter_isRejected_Fulfilled [simp]: "filter isRejected (map Fulfilled vs) = []"
  by (induction vs) auto

lemma map_settled_value_Fulfilled [simp]: "map (settled_value \<circ> Fulfilled) vs = vs"
  by (induction vs) auto

text \<open>
  C9. With no rejected result the helper returns the values in order; with exactly one it
  throws that result's reason; with two or more it throws an \<^verbatim>\<open>AggregateError\<close> of all the
  reasons, in order.
\<close>

theorem handlePromiseAllSettledResult_outcomes:
  "handlePromiseAllSettledResult (map Fulfilled vs) = Inr vs
   \<and> handlePromiseAllSettledResult (map Fulfilled vs @ Rejected e # map Fulfilled ws) = Inl e
   \<and> (2 \<le> length (filter isRejected results) \<longrightarrow>
        handlePromiseAllSettledResult results
          = Inl (AggregateError (map settled_reason (filter isRejected results))))"
  by (simp add: handlePromiseAllSettledResult_def Let_def)

theorem handlePromiseAllSettledResult_outcomes_witness:
  "2 \<le> length (filter isRejected [Rejected SizeLimitReached, Fulfilled (1::nat), Rejected OffsetOutOfBounds])
   \<and> handlePromiseAllSettledResult [Rejected SizeLimitReached, Fulfilled (1::nat), Rejected OffsetOutOfBounds]
       = Inl (AggregateError [SizeLimitReached, OffsetOutOfBounds])"
  using handlePromiseAllSettledResult_outcomes
    [of "[] :: nat list" SizeLimitReached "[]" "[Rejected SizeLimitReached, Fulfilled (1::nat), Rejected OffsetOutOfBounds]"]
  by simp


section \<open>The bucket: properties\<close>

lemma resize_length:
  "resize newLength a = (Inr u, a') \<Longrightarrow> rb_length a' = newLength"
  by (auto simp: resize_def Let_def split: if_splits)

lemma getInsertionByteOffset_empty:
  "rb_length (arena d) = 0 \<Longrightarrow> getInsertionByteOffset v d t = Inr 0"
  by (simp add: getInsertionByteOffset_def)

lemma getTimeRangeByteOffsets_empty:
  "rb_length (arena d) = 0 \<Longrightarrow> getTimeRangeByteOffsets v d f t = Inr (0, 0)"
  by (simp add: getTimeRangeByteOffsets_def getInsertionByteOffset_empty
      walkBackward.simps[of v d f 0] walkForward.simps[of v d t 0]
      entryByteLength_def timeByteLength_def)

lemma loadData_loaded [simp]: "loadData (b\<lparr>data := Some d\<rparr>) = d"
  by (simp add: loadData_def)

lemma bucket_delete_requireFlush:
  assumes a: "bucket_delete from to b = (Inr (), b')"
  shows "requireFlush b' = (requireFlush b \<or> dataLength b' \<noteq> dataLength b)"
proof (cases "from \<ge> bucket_to b \<or> to < bucket_from b")
  case True
  then have "b' = b" using a by (simp add: bucket_delete_def)
  then show ?thesis by simp
next
  case False
  define d where "d = loadData b"
  define v where "v = valueByteLength b"
  obtain fo t where o: "getTimeRangeByteOffsets v d from to = Inr (fo, t)"
    using a False unfolding bucket_delete_def d_def v_def
    by (auto simp: Let_def split: sum.splits)
  show ?thesis
  proof (cases "fo = t")
    case True
    then have "b' = b\<lparr>data := Some d\<rparr>"
      using a False o unfolding bucket_delete_def d_def v_def by (simp add: Let_def)
    then show ?thesis by (simp add: dataLength_def d_def)
  next
    case ne: False
    have pos: "rb_length (arena d) \<noteq> 0"
      using getTimeRangeByteOffsets_empty[of d v "from" to] o ne by auto
    define newLength where "newLength = (if fo \<le> t then rb_length (arena d) - (t - fo)
        else rb_length (arena d) + (fo - t))"
    have nl: "newLength \<noteq> rb_length (arena d)"
      using ne pos unfolding newLength_def by auto
    obtain a' where r: "resize newLength (arena d) = (Inr (), a')"
      and b': "requireFlush b'" "data b' = Some \<lparr>arena = a',
          entries = take (fo div entryByteLength v) (entries d) @ drop (t div entryByteLength v) (entries d)\<rparr>"
      using a False o ne unfolding bucket_delete_def d_def v_def newLength_def
      by (auto simp: Let_def split: sum.splits prod.splits)
    have "dataLength b' = newLength"
      using b'(2) resize_length[OF r] by (simp add: dataLength_def loadData_def)
    then show ?thesis using b'(1) nl by (simp add: dataLength_def d_def)
  qed
qed


lemmas bucket_defs =
  push_def bucket_insert_def bucket_delete_def bucket_drop_def select_def flush_def
  newZektaTimeBucket_def loadData_def isTimeInRange_def bucket_from_def bucket_to_def
  getTimeFromId_def timeRange_def pushRaw_def getInsertionByteOffset_def
  getTimeRangeByteOffsets_def resize_def ResizeableBuffer_new_def ResizeableBuffer_wrap_def
  entryByteLength_def timeByteLength_def getTime_def getValue_def readEntry_def
  sortTimeSeriesEntries_def dataLength_def afterFailedResize_def Let_def


text \<open>
  C4, as the code has it: a \<^verbatim>\<open>push\<close> that completes sets the require-flush flag; an
  \<^verbatim>\<open>insert\<close> that completes sets it unless the batch is empty; a \<^verbatim>\<open>delete\<close> that completes
  sets it when it has changed the length of the data; a \<^verbatim>\<open>drop\<close> that completes sets it
  unless the data was empty. Otherwise the flag is left as it was.
\<close>

theorem mutations_set_requireFlush:
  "(push time val b = (Inr (), b') \<longrightarrow> requireFlush b')
   \<and> (bucket_insert es b = (Inr (), b', es') \<longrightarrow> requireFlush b' = (requireFlush b \<or> es \<noteq> []))
   \<and> (bucket_delete from to b = (Inr (), b') \<longrightarrow>
        requireFlush b' = (requireFlush b \<or> dataLength b' \<noteq> dataLength b))
   \<and> (bucket_drop b = (Inr (), b') \<longrightarrow> requireFlush b' = (requireFlush b \<or> dataLength b \<noteq> 0))"
proof (intro conjI impI)
  assume "push time val b = (Inr (), b')"
  then show "requireFlush b'"
    by (auto simp: push_def Let_def split: if_splits prod.splits sum.splits)
next
  assume "bucket_insert es b = (Inr (), b', es')"
  then show "requireFlush b' = (requireFlush b \<or> es \<noteq> [])"
    by (auto simp: bucket_insert_def Let_def split: if_splits prod.splits sum.splits)
next
  assume "bucket_drop b = (Inr (), b')"
  then show "requireFlush b' = (requireFlush b \<or> dataLength b \<noteq> 0)"
    by (auto simp: bucket_drop_def dataLength_def Let_def split: if_splits prod.splits sum.splits)
next
  assume "bucket_delete from to b = (Inr (), b')"
  then show "requireFlush b' = (requireFlush b \<or> dataLength b' \<noteq> dataLength b)"
    by (rule bucket_delete_requireFlush)
qed

theorem mutations_set_requireFlush_witness:
  "push 1 [2] (newZektaTimeBucket 0 1 None)
     = (Inr (), \<lparr>bucket_id = 0, valueByteLength = 1,
          data = Some \<lparr>arena = ResizeableBuffer_new\<lparr>rb_length := 9\<rparr>, entries = [(1, [2])]\<rparr>,
          requireFlush = True, bucket_file = None\<rparr>)
   \<and> bucket_insert [(1, [2])] (newZektaTimeBucket 0 1 None)
     = (Inr (), \<lparr>bucket_id = 0, valueByteLength = 1,
          data = Some \<lparr>arena = ResizeableBuffer_new\<lparr>rb_length := 9\<rparr>, entries = [(1, [2])]\<rparr>,
          requireFlush = True, bucket_file = None\<rparr>, [(1, [2])])
   \<and> bucket_delete 1 1 \<lparr>bucket_id = 0, valueByteLength = 1,
          data = Some \<lparr>arena = ResizeableBuffer_wrap 9, entries = [(1, [2])]\<rparr>,
          requireFlush = False, bucket_file = Some [(1, [2])]\<rparr>
     = (Inr (), \<lparr>bucket_id = 0, valueByteLength = 1,
          data = Some \<lparr>arena = (ResizeableBuffer_wrap 9)\<lparr>rb_length := 0\<rparr>, entries = []\<rparr>,
          requireFlush = True, bucket_file = Some [(1, [2])]\<rparr>)
   \<and> bucket_drop \<lparr>bucket_id = 0, valueByteLength = 1,
          data = Some \<lparr>arena = ResizeableBuffer_wrap 9, entries = [(1, [2])]\<rparr>,
          requireFlush = False, bucket_file = Some [(1, [2])]\<rparr>
     = (Inr (), \<lparr>bucket_id = 0, valueByteLength = 1,
          data = Some \<lparr>arena = (ResizeableBuffer_wrap 9)\<lparr>rb_length := 0\<rparr>, entries = []\<rparr>,
          requireFlush = True, bucket_file = Some [(1, [2])]\<rparr>)"
proof -
  let ?b0 = "newZektaTimeBucket 0 1 None"
  let ?b1 = "\<lparr>bucket_id = 0, valueByteLength = 1,
          data = Some \<lparr>arena = ResizeableBuffer_new\<lparr>rb_length := 9\<rparr>, entries = [(1, [2])]\<rparr>,
          requireFlush = True, bucket_file = None\<rparr>"
  let ?c0 = "\<lparr>bucket_id = 0, valueByteLength = 1,
          data = Some \<lparr>arena = ResizeableBuffer_wrap 9, entries = [(1, [2])]\<rparr>,
          requireFlush = False, bucket_file = Some [(1, [2])]\<rparr>"
  let ?c1 = "\<lparr>bucket_id = 0, valueByteLength = 1,
          data = Some \<lparr>arena = (ResizeableBuffer_wrap 9)\<lparr>rb_length := 0\<rparr>, entries = []\<rparr>,
          requireFlush = True, bucket_file = Some [(1, [2])]\<rparr>"
  have p: "push 1 [2] ?b0 = (Inr (), ?b1)" by (simp add: bucket_defs)
  have i: "bucket_insert [(1, [2])] ?b0 = (Inr (), ?b1, [(1, [2])])" by (simp add: bucket_defs)
  have d: "bucket_delete 1 1 ?c0 = (Inr (), ?c1)"
    by (simp add: bucket_defs walkBackward.simps walkForward.simps)
  have r: "bucket_drop ?c0 = (Inr (), ?c1)" by (simp add: bucket_defs)
  have "requireFlush ?b1"
    using mutations_set_requireFlush[of 1 "[2]" ?b0 ?b1] p by blast
  moreover have "requireFlush ?b1 = (requireFlush ?b0 \<or> [(1, [2])] \<noteq> ([] :: entry list))"
    using mutations_set_requireFlush[of _ _ ?b0 ?b1 "[(1, [2])]" "[(1, [2])]"] i by blast
  moreover have "requireFlush ?c1 = (requireFlush ?c0 \<or> dataLength ?c1 \<noteq> dataLength ?c0)"
    using mutations_set_requireFlush[of _ _ ?c0 ?c1 _ _ 1 1] d by blast
  moreover have "requireFlush ?c1 = (requireFlush ?c0 \<or> dataLength ?c0 \<noteq> 0)"
    using mutations_set_requireFlush[of _ _ ?c0 ?c1] r by blast
  ultimately show ?thesis using p i d r by simp
qed

text \<open>
  A drop of an empty bucket, an insert of an empty batch and a delete that matches nothing
  complete without setting the flag.
\<close>

theorem noop_mutations_leave_requireFlush_unset:
  "bucket_drop \<lparr>bucket_id = 0, valueByteLength = 1,
       data = Some \<lparr>arena = ResizeableBuffer_new, entries = []\<rparr>,
       requireFlush = False, bucket_file = None\<rparr>
     = (Inr (), \<lparr>bucket_id = 0, valueByteLength = 1,
       data = Some \<lparr>arena = ResizeableBuffer_new, entries = []\<rparr>,
       requireFlush = False, bucket_file = None\<rparr>)
   \<and> bucket_insert [] \<lparr>bucket_id = 0, valueByteLength = 1,
       data = Some \<lparr>arena = ResizeableBuffer_new, entries = []\<rparr>,
       requireFlush = False, bucket_file = None\<rparr>
     = (Inr (), \<lparr>bucket_id = 0, valueByteLength = 1,
       data = Some \<lparr>arena = ResizeableBuffer_new, entries = []\<rparr>,
       requireFlush = False, bucket_file = None\<rparr>, [])
   \<and> bucket_delete 5 6 \<lparr>bucket_id = 0, valueByteLength = 1,
       data = Some \<lparr>arena = ResizeableBuffer_wrap 9, entries = [(1, [2])]\<rparr>,
       requireFlush = False, bucket_file = Some [(1, [2])]\<rparr>
     = (Inr (), \<lparr>bucket_id = 0, valueByteLength = 1,
       data = Some \<lparr>arena = ResizeableBuffer_wrap 9, entries = [(1, [2])]\<rparr>,
       requireFlush = False, bucket_file = Some [(1, [2])]\<rparr>)"
  by (simp add: bucket_defs walkBackward.simps walkForward.simps)

lemma insert_loop_append:
  "insert_loop b (pre @ rest) d =
     (case insert_loop b pre d of
        (Inl e, d') \<Rightarrow> (Inl e, d')
      | (Inr u, d') \<Rightarrow> insert_loop b rest d')"
  by (induction pre arbitrary: d) (auto split: prod.splits sum.splits)

lemma pushRaw_mset:
  "pushRaw v t val d = (Inr off, d') \<Longrightarrow> mset (entries d') = mset (entries d) + {#(t, val)#}"
proof -
  assume a: "pushRaw v t val d = (Inr off, d')"
  have "mset (take n (entries d)) + mset (drop n (entries d)) = mset (entries d)" for n
    by (metis append_take_drop_id mset_append)
  then show ?thesis
    using a by (auto simp: pushRaw_def split: sum.splits prod.splits if_splits)
qed

lemma insert_loop_mset:
  "insert_loop b es d = (Inr u, d') \<Longrightarrow> mset (entries d') = mset (entries d) + mset es"
proof (induction es arbitrary: d)
  case Nil
  then show ?case by simp
next
  case (Cons x es)
  obtain t val where x: "x = (t, val)" by (cases x)
  from Cons.prems obtain off d1 where p: "pushRaw (valueByteLength b) t val d = (Inr off, d1)"
    and l: "insert_loop b es d1 = (Inr u, d')"
    unfolding x by (auto split: if_splits prod.splits sum.splits)
  show ?case using Cons.IH[OF l] pushRaw_mset[OF p] by (simp add: x)
qed

section \<open>Descending selection\<close>

lemma getInsertionByteOffset_dvd:
  assumes "entryByteLength v dvd rb_length (arena d)"
    and "getInsertionByteOffset v d t = Inr off"
  shows "entryByteLength v dvd off"
  using assms by (auto simp: getInsertionByteOffset_def Let_def split: if_splits)

lemma walkBackward_dvd:
  "entryByteLength v dvd off \<Longrightarrow> entryByteLength v dvd walkBackward v d f off"
proof (induction v d f off rule: walkBackward.induct)
  case (1 v d f off)
  show ?case
  proof (cases "off \<ge> entryByteLength v \<and> f = getTime v d (off - entryByteLength v)")
    case True
    then have "entryByteLength v dvd off - entryByteLength v"
      using "1.prems" by (simp add: dvd_diff_nat)
    then show ?thesis
      using True "1.IH" by (subst walkBackward.simps) simp
  next
    case False
    then show ?thesis using "1.prems" by (subst walkBackward.simps) auto
  qed
qed

lemma walkForward_dvd:
  "entryByteLength v dvd off \<Longrightarrow> entryByteLength v dvd walkForward v d t off"
proof (induction v d t off rule: walkForward.induct)
  case (1 v d t off)
  show ?case
  proof (cases "off < rb_length (arena d) \<and> t = getTime v d off")
    case True
    then show ?thesis
      using "1.IH" "1.prems" by (subst walkForward.simps) simp
  next
    case False
    then show ?thesis using "1.prems" by (subst walkForward.simps) auto
  qed
qed

lemma getTimeRangeByteOffsets_dvd:
  assumes "entryByteLength v dvd rb_length (arena d)"
    and "getTimeRangeByteOffsets v d f t = Inr (fo, to)"
  shows "entryByteLength v dvd fo" "entryByteLength v dvd to"
proof -
  from assms(2) obtain fo0 to0 where
    f: "getInsertionByteOffset v d f = Inr fo0" and t: "getInsertionByteOffset v d t = Inr to0"
    and e: "fo = walkBackward v d f fo0" "to = walkForward v d t to0"
    by (auto simp: getTimeRangeByteOffsets_def split: sum.splits)
  show "entryByteLength v dvd fo"
    unfolding e by (rule walkBackward_dvd) (rule getInsertionByteOffset_dvd[OF assms(1) f])
  show "entryByteLength v dvd to"
    unfolding e by (rule walkForward_dvd) (rule getInsertionByteOffset_dvd[OF assms(1) t])
qed

lemma entryByteLength_pos: "0 < entryByteLength v"
  by (simp add: entryByteLength_def timeByteLength_def)

lemma reverse_read:
  assumes "r dvd fo" "r dvd to" "fo \<le> to" "0 < (r::nat)"
  shows "map (\<lambda>i. f (to - r - i * r)) [0..<(to - fo) div r]
         = rev (map (\<lambda>i. f (fo + i * r)) [0..<(to - fo) div r])"
proof -
  define n where "n = (to - fo) div r"
  have "r dvd to - fo" using assms(1,2) by (simp add: dvd_diff_nat)
  then have e: "to - fo = n * r" unfolding n_def by simp
  then have to: "to = fo + n * r" using assms(3) by linarith
  show ?thesis
    unfolding n_def[symmetric]
  proof (rule nth_equalityI)
    show "length (map (\<lambda>i. f (to - r - i * r)) [0..<n])
          = length (rev (map (\<lambda>i. f (fo + i * r)) [0..<n]))" by simp
  next
    fix i assume "i < length (map (\<lambda>i. f (to - r - i * r)) [0..<n])"
    then have i: "i < n" by simp
    then have "n = (n - 1 - i) + 1 + i" by simp
    then have "n * r = (n - 1 - i) * r + r + i * r"
      by (metis add_mult_distrib mult_1)
    then have "to - r - i * r = fo + (n - 1 - i) * r" unfolding to by simp
    moreover have "rev (map (\<lambda>i. f (fo + i * r)) [0..<n]) ! i = f (fo + (n - 1 - i) * r)"
      using i by (simp add: rev_nth)
    ultimately show "map (\<lambda>i. f (to - r - i * r)) [0..<n] ! i
          = rev (map (\<lambda>i. f (fo + i * r)) [0..<n]) ! i"
      using i by simp
  qed
qed

lemma select_desc_rev:
  assumes "wholeEntries b"
  shows "fst (select False f t b) = map_sum id rev (fst (select True f t b))"
proof (cases "f \<ge> bucket_to b \<or> t < bucket_from b")
  case True
  then show ?thesis by (simp add: select_def)
next
  case False
  define d where "d = loadData b"
  define v where "v = valueByteLength b"
  have dv: "entryByteLength v dvd rb_length (arena d)"
    using assms by (simp add: wholeEntries_def dataLength_def d_def v_def)
  show ?thesis
  proof (cases "getTimeRangeByteOffsets v d f t")
    case (Inl e)
    then show ?thesis using False by (simp add: select_def d_def v_def Let_def)
  next
    case (Inr p)
    obtain fo to where p: "p = (fo, to)" by (cases p)
    note o = Inr[unfolded p]
    show ?thesis
    proof (cases "to < fo")
      case True
      then show ?thesis using False o by (simp add: select_def d_def v_def Let_def)
    next
      case le: False
      have eq: "map (\<lambda>i. readEntry v d (to - entryByteLength v - i * entryByteLength v))
              [0..<(to - fo) div entryByteLength v]
          = rev (map (\<lambda>i. readEntry v d (fo + i * entryByteLength v))
              [0..<(to - fo) div entryByteLength v])"
        using getTimeRangeByteOffsets_dvd[OF dv o] le entryByteLength_pos
        by (intro reverse_read) auto
      have asc: "fst (select True f t b)
          = Inr (map (\<lambda>i. readEntry v d (fo + i * entryByteLength v))
              [0..<(to - fo) div entryByteLength v])"
        using False o le by (simp add: select_def d_def[symmetric] v_def[symmetric] Let_def)
      have desc: "fst (select False f t b)
          = Inr (map (\<lambda>i. readEntry v d (to - entryByteLength v - i * entryByteLength v))
              [0..<(to - fo) div entryByteLength v])"
        using False o le by (simp add: select_def d_def[symmetric] v_def[symmetric] Let_def)
      show ?thesis unfolding asc desc eq by simp
    qed
  qed
qed

lemma handle_map_Inr:
  "handlePromiseAllSettledResult (map settle (map Inr ls)) = Inr ls"
  by (induction ls) (auto simp: handlePromiseAllSettledResult_def settle_def Let_def)

lemma isRejected_settle: "isRejected (settle r) \<longleftrightarrow> isl r"
  by (cases r) (simp_all add: settle_def)

lemma handle_Inr_iff:
  "(\<exists>vs. handlePromiseAllSettledResult (map settle rs) = Inr vs) \<longleftrightarrow> (\<forall>r \<in> set rs. \<not> isl r)"
proof
  assume "\<exists>vs. handlePromiseAllSettledResult (map settle rs) = Inr vs"
  then have "filter isRejected (map settle rs) = []"
    by (auto simp: handlePromiseAllSettledResult_def Let_def split: if_splits)
  then show "\<forall>r \<in> set rs. \<not> isl r"
    by (auto simp: filter_empty_conv isRejected_settle)
next
  assume "\<forall>r \<in> set rs. \<not> isl r"
  then have "filter isRejected (map settle rs) = []"
    by (auto simp: filter_empty_conv isRejected_settle)
  then show "\<exists>vs. handlePromiseAllSettledResult (map settle rs) = Inr vs"
    by (simp add: handlePromiseAllSettledResult_def)
qed

lemma all_Inr_map:
  fixes rs :: "('e + 'a) list"
  shows "(\<forall>r \<in> set rs. \<not> isl r) \<Longrightarrow> \<exists>ls. rs = map Inr ls"
proof (induction rs)
  case Nil
  then show ?case by simp
next
  case (Cons r rs)
  then obtain ls where "rs = map Inr ls" by auto
  moreover obtain x where "r = Inr x" using Cons.prems by (cases r) auto
  ultimately have "r # rs = map Inr (x # ls)" by simp
  then show ?case by (rule exI)
qed

lemma fanout_reverse:
  fixes rs :: "(error + 'a list) list"
  shows "map_sum id concat (handlePromiseAllSettledResult (map settle rs)) = Inr xs
     \<longleftrightarrow> map_sum id concat (handlePromiseAllSettledResult
            (map settle (map (map_sum id rev) (rev rs)))) = Inr (rev xs)"
proof (cases "\<forall>r \<in> set rs. \<not> isl r")
  case True
  then obtain ls where ls: "rs = map Inr ls" using all_Inr_map by blast
  have "map (map_sum id rev) (rev rs) = map Inr (map rev (rev ls))"
    by (simp add: ls rev_map)
  then have "map_sum id concat (handlePromiseAllSettledResult
            (map settle (map (map_sum id rev) (rev rs)))) = Inr (concat (map rev (rev ls)))"
    by (simp only: handle_map_Inr) simp
  moreover have "map_sum id concat (handlePromiseAllSettledResult (map settle rs)) = Inr (concat ls)"
    unfolding ls by (simp only: handle_map_Inr) simp
  moreover have "concat (map rev (rev ls)) = rev (concat ls)"
    by (simp add: rev_concat)
  ultimately show ?thesis by auto
next
  case False
  then have a: "\<not> (\<exists>vs. handlePromiseAllSettledResult (map settle rs) = Inr vs)"
    using handle_Inr_iff by blast
  have "\<not> (\<forall>r \<in> set (map (map_sum id rev) (rev rs)). \<not> isl r)"
    using False by (auto simp: isl_map_sum)
  then have b: "\<not> (\<exists>vs. handlePromiseAllSettledResult
            (map settle (map (map_sum id rev) (rev rs))) = Inr vs)"
    using handle_Inr_iff by blast
  have "\<And>r :: error + 'a list list. (\<nexists>vs. r = Inr vs) \<Longrightarrow> map_sum id concat r \<noteq> Inr ys" for ys
    by (case_tac r) auto
  then show ?thesis using a b by blast
qed

text \<open>
  C8. For a bucket whose data is a whole number of records, \<^verbatim>\<open>select\<close> with \<open>asc: false\<close>
  returns the reverse of what it returns with \<open>asc: true\<close> (and raises when that raises).
  For a series of such buckets, the descending \<^verbatim>\<open>select\<close> returns a list exactly when the
  ascending one does, and the list is its reverse.
\<close>

theorem select_descending_is_reverse:
  "(wholeEntries b \<longrightarrow>
      fst (select False from to b) = map_sum id rev (fst (select True from to b)))
   \<and> ((\<forall>b \<in> set (buckets s). wholeEntries b) \<longrightarrow>
      (fst (series_select True from to s) = Inr xs
       \<longleftrightarrow> fst (series_select False from to s) = Inr (rev xs)))"
proof (intro conjI impI)
  assume "wholeEntries b"
  then show "fst (select False from to b) = map_sum id rev (fst (select True from to b))"
    by (rule select_desc_rev)
next
  assume inv: "\<forall>b \<in> set (buckets s). wholeEntries b"
  obtain fi ti where ix: "getTimeRangeBucketIndexesInArray s from to = (fi, ti)"
    by (cases "getTimeRangeBucketIndexesInArray s from to")
  have ti: "ti \<le> int (length (buckets s))"
    using ix by (auto simp: getTimeRangeBucketIndexesInArray_def Let_def)
  define range where "range = [nat fi..<nat ti]"
  define rs where "rs = map (\<lambda>i. fst (select True from to (buckets s ! i))) range"
  have "\<forall>i \<in> set range. wholeEntries (buckets s ! i)"
    using inv ti unfolding range_def by auto
  then have "map (\<lambda>i. fst (select False from to (buckets s ! i))) (rev range)
      = map (map_sum id rev) (rev rs)"
    unfolding rs_def by (simp add: rev_map select_desc_rev)
  then have h: "map settle (map (\<lambda>i. fst (select False from to (buckets s ! i))) (rev range))
      = map settle (map (map_sum id rev) (rev rs))"
    by (simp only:)
  have d: "fst (series_select False from to s)
      = map_sum id concat (handlePromiseAllSettledResult
            (map settle (map (map_sum id rev) (rev rs))))"
    by (simp only: series_select_def ix Let_def prod.case fst_conv range_def[symmetric] if_False h)
  have a: "fst (series_select True from to s)
      = map_sum id concat (handlePromiseAllSettledResult (map settle rs))"
    by (simp only: series_select_def ix Let_def prod.case fst_conv range_def[symmetric] if_True
        rs_def)
  show "fst (series_select True from to s) = Inr xs
       \<longleftrightarrow> fst (series_select False from to s) = Inr (rev xs)"
    unfolding a d by (rule fanout_reverse)
qed


lemmas series_defs =
  series_select_def getTimeRangeBucketIndexesInArray_def getIdFromTime_def binarySearch_def
  binarySearch_loop.simps walkBackward.simps walkForward.simps settle_def
  handlePromiseAllSettledResult_def upt_conv_Cons

theorem select_descending_is_reverse_witness:
  "wholeEntries (newZektaTimeBucket 0 2 (Some [(1, [2, 0]), (5, [3, 0]), (5, [4, 0])]))
   \<and> wholeEntries (newZektaTimeBucket 1 2 (Some [(600, [5, 0])]))
   \<and> fst (select False 0 1000 (newZektaTimeBucket 0 2 (Some [(1, [2, 0]), (5, [3, 0]), (5, [4, 0])])))
       = Inr [(5, [4, 0]), (5, [3, 0]), (1, [2, 0])]
   \<and> fst (series_select True 0 1000
        \<lparr>series_valueByteLength = 2,
         buckets = [newZektaTimeBucket 0 2 (Some [(1, [2, 0]), (5, [3, 0]), (5, [4, 0])]),
                    newZektaTimeBucket 1 2 (Some [(600, [5, 0])])]\<rparr>)
       = Inr [(1, [2, 0]), (5, [3, 0]), (5, [4, 0]), (600, [5, 0])]
   \<and> fst (series_select False 0 1000
        \<lparr>series_valueByteLength = 2,
         buckets = [newZektaTimeBucket 0 2 (Some [(1, [2, 0]), (5, [3, 0]), (5, [4, 0])]),
                    newZektaTimeBucket 1 2 (Some [(600, [5, 0])])]\<rparr>)
       = Inr [(600, [5, 0]), (5, [4, 0]), (5, [3, 0]), (1, [2, 0])]"
proof -
  let ?b0 = "newZektaTimeBucket 0 2 (Some [(1, [2, 0]), (5, [3, 0]), (5, [4, 0])])"
  let ?b1 = "newZektaTimeBucket 1 2 (Some [(600, [5, 0])])"
  let ?s = "\<lparr>series_valueByteLength = 2, buckets = [?b0, ?b1]\<rparr>"
  have w: "\<forall>b \<in> set (buckets ?s). wholeEntries b"
    by (simp add: wholeEntries_def bucket_defs)
  have w0: "wholeEntries ?b0"
    by (simp add: wholeEntries_def bucket_defs)
  have a0: "fst (select True 0 1000 ?b0) = Inr [(1, [2, 0]), (5, [3, 0]), (5, [4, 0])]"
    by (simp add: bucket_defs series_defs)
  have a1: "fst (select True 0 1000 ?b1) = Inr [(600, [5, 0])]"
    by (simp add: bucket_defs series_defs)
  have ix: "getTimeRangeBucketIndexesInArray ?s 0 1000 = (0, 2)"
    by (simp add: bucket_defs series_defs)
  have a: "fst (series_select True 0 1000 ?s) = Inr [(1, [2, 0]), (5, [3, 0]), (5, [4, 0]), (600, [5, 0])]"
    unfolding series_select_def ix
    by (simp add: Let_def a0 a1 settle_def handlePromiseAllSettledResult_def upt_conv_Cons)
  have "fst (select False 0 1000 ?b0) = Inr [(5, [4, 0]), (5, [3, 0]), (1, [2, 0])]"
    using select_descending_is_reverse[of ?b0 0 1000] w0 a0 by simp
  moreover have "fst (series_select False 0 1000 ?s) = Inr [(600, [5, 0]), (5, [4, 0]), (5, [3, 0]), (1, [2, 0])]"
    using select_descending_is_reverse[of _ 0 1000 ?s "[(1, [2, 0]), (5, [3, 0]), (5, [4, 0]), (600, [5, 0])]"] w a
    by simp
  ultimately show ?thesis using w a by simp
qed


section \<open>Range selection and deletion\<close>

lemma getTime_index [simp]:
  "getTime v d (k * entryByteLength v) = fst (entries d ! k)"
  by (simp add: getTime_def entryByteLength_pos)

lemma getValue_index [simp]:
  "getValue v d (k * entryByteLength v) = snd (entries d ! k)"
  by (simp add: getValue_def entryByteLength_pos)

lemma eight_le_entryByteLength: "8 \<le> entryByteLength v"
  by (simp add: entryByteLength_def timeByteLength_def)

lemma getInsertionByteOffset_spec:
  assumes inv: "dataInvariant v d"
  shows "\<exists>k. getInsertionByteOffset v d t = Inr (k * entryByteLength v)
             \<and> insertionIndex (entries d) t k"
proof -
  define R where "R = entryByteLength v"
  define es where "es = entries d"
  define n where "n = length es"
  have R: "8 \<le> R" "0 < R" unfolding R_def using eight_le_entryByteLength[of v] by auto
  have len: "rb_length (arena d) = n * R"
    using inv by (simp add: dataInvariant_def R_def n_def es_def)
  have cap: "n * R \<le> bytes_length (arena d)"
    using inv len by (simp add: dataInvariant_def arenaInvariant_def)
  have srt: "sorted (map fst es)" using inv by (simp add: dataInvariant_def es_def)
  have mono: "fst (es ! i) \<le> fst (es ! j)" if "i \<le> j" "j < n" for i j
    using sorted_nth_mono[OF srt, of i j] that by (simp add: n_def)
  show ?thesis
  proof (cases "n = 0")
    case True
    then have "getInsertionByteOffset v d t = Inr (0 * entryByteLength v)"
      using len by (simp add: getInsertionByteOffset_def)
    moreover have "insertionIndex (entries d) t 0"
      using True by (simp add: insertionIndex_def n_def es_def)
    ultimately show ?thesis by blast
  next
    case False
    then have n: "0 < n" by simp
    have last: "rb_length (arena d) - R = (n - 1) * R"
      using len n by (simp add: diff_mult_distrib)
    have ge: "R \<le> n * R" using n by simp
    have "(n - 1) * R + R = n * R" using n by (metis add.commute mult_eq_if not_gr_zero)
    then have inb: "(n - 1) * R + 8 \<le> bytes_length (arena d)" using cap R(1) by linarith
    have nz: "rb_length (arena d) \<noteq> 0" using len n R by simp
    have guard: "\<not> (rb_length (arena d) < entryByteLength v
                \<or> rb_length (arena d) - entryByteLength v + timeByteLength > bytes_length (arena d))"
      using last ge inb len n R by (simp add: R_def[symmetric] timeByteLength_def)
    have guard': "\<not> bytes_length (arena d)
                    < rb_length (arena d) + timeByteLength - entryByteLength v"
      using guard by linarith
    have tl: "getTime v d (rb_length (arena d) - entryByteLength v) = fst (es ! (n - 1))"
      using last by (simp add: R_def[symmetric] es_def) (simp add: R_def)
    have t0: "getTime v d 0 = fst (es ! 0)"
      using getTime_index[of v d 0] by (simp add: es_def)
    consider (app) "t \<ge> fst (es ! (n - 1))"
      | (pre) "\<not> t \<ge> fst (es ! (n - 1))" "t \<le> fst (es ! 0)"
      | (mid) "\<not> t \<ge> fst (es ! (n - 1))" "\<not> t \<le> fst (es ! 0)" by blast
    then show ?thesis
    proof cases
      case app
      have "getInsertionByteOffset v d t = Inr (n * entryByteLength v)"
        unfolding getInsertionByteOffset_def using nz guard guard' app tl len
        by (simp add: Let_def R_def)
      moreover have "insertionIndex (entries d) t n"
        unfolding insertionIndex_def es_def[symmetric] n_def[symmetric]
      proof (intro conjI allI impI)
        fix j assume "j < n"
        then have "fst (es ! j) \<le> fst (es ! (n - 1))" using mono[of j "n - 1"] n by simp
        then show "fst (es ! j) \<le> t" using app by simp
      qed auto
      ultimately show ?thesis by blast
    next
      case pre
      have "getInsertionByteOffset v d t = Inr (0 * entryByteLength v)"
        unfolding getInsertionByteOffset_def using nz guard guard' pre tl t0
        by (simp add: Let_def)
      moreover have "insertionIndex (entries d) t 0"
        unfolding insertionIndex_def es_def[symmetric] n_def[symmetric]
      proof (intro conjI allI impI)
        fix j assume "0 \<le> j \<and> j < n"
        then have "fst (es ! 0) \<le> fst (es ! j)" using mono[of 0 j] by simp
        then show "t \<le> fst (es ! j)" using pre by simp
      qed auto
      ultimately show ?thesis by blast
    next
      case mid
      define cmp where "cmp = (\<lambda>index. fst (entries d ! nat index) - t)"
      have cmp: "cmp i = fst (es ! nat i) - t" for i
        by (simp add: cmp_def es_def)
      have cm: "\<forall>i j. 0 \<le> i \<and> i \<le> j \<and> j < int n \<longrightarrow> cmp i \<le> cmp j"
      proof (intro allI impI)
        fix i j :: int assume "0 \<le> i \<and> i \<le> j \<and> j < int n"
        then have "fst (es ! nat i) \<le> fst (es ! nat j)" by (intro mono) auto
        then show "cmp i \<le> cmp j" by (simp add: cmp)
      qed
      note b = binarySearch_bounds[OF cm]
      define k where "k = nat (binarySearch n cmp)"
      have dv: "rb_length (arena d) div entryByteLength v = n"
        using len R by (simp add: R_def)
      have "getInsertionByteOffset v d t = Inr (k * entryByteLength v)"
        unfolding getInsertionByteOffset_def using nz guard guard' mid tl t0
        by (simp add: Let_def dv cmp_def k_def)
      moreover have "insertionIndex (entries d) t k"
        unfolding insertionIndex_def es_def[symmetric] n_def[symmetric]
      proof (intro conjI allI impI)
        show "k \<le> n" using b(1,2) by (simp add: k_def)
      next
        fix j assume "j < k"
        then have "int j < binarySearch n cmp" unfolding k_def by linarith
        then have "cmp (int j) \<le> 0" using b(3)[of "int j"] by simp
        then show "fst (es ! j) \<le> t" by (simp add: cmp)
      next
        fix j assume j: "k \<le> j \<and> j < n"
        then have "binarySearch n cmp \<le> int j" unfolding k_def by linarith
        then have "0 \<le> cmp (int j)" using b(4)[of "int j"] j by simp
        then show "t \<le> fst (es ! j)" by (simp add: cmp)
      qed
      ultimately show ?thesis by blast
    qed
  qed
qed

lemma walkBackward_spec:
  assumes srt: "sorted (map fst (entries d))"
  shows "insertionIndex (entries d) t k \<Longrightarrow>
     \<exists>k'. walkBackward v d t (k * entryByteLength v) = k' * entryByteLength v
        \<and> k' \<le> length (entries d)
        \<and> (\<forall>j < k'. fst (entries d ! j) < t)
        \<and> (\<forall>j. k' \<le> j \<and> j < length (entries d) \<longrightarrow> t \<le> fst (entries d ! j))"
proof (induction k)
  case 0
  have "walkBackward v d t (0 * entryByteLength v) = 0 * entryByteLength v"
    using entryByteLength_pos[of v] by (subst walkBackward.simps) simp
  then show ?case using 0 unfolding insertionIndex_def by (intro exI[of _ 0]) simp
next
  case (Suc m)
  define R where "R = entryByteLength v"
  have R: "0 < R" unfolding R_def by (rule entryByteLength_pos)
  have m: "m < length (entries d)" using Suc.prems by (simp add: insertionIndex_def)
  have le: "fst (entries d ! m) \<le> t" using Suc.prems by (simp add: insertionIndex_def)
  have sub: "Suc m * R - R = m * R" by simp
  show ?case
  proof (cases "t = fst (entries d ! m)")
    case True
    have "insertionIndex (entries d) t m"
      unfolding insertionIndex_def
    proof (intro conjI allI impI)
      show "m \<le> length (entries d)" using m by simp
    next
      fix j assume "j < m"
      then show "fst (entries d ! j) \<le> t"
        using Suc.prems by (simp add: insertionIndex_def)
    next
      fix j assume j: "m \<le> j \<and> j < length (entries d)"
      show "t \<le> fst (entries d ! j)"
      proof (cases "j = m")
        case True
        then show ?thesis using \<open>t = fst (entries d ! m)\<close> by simp
      next
        case False
        then have "Suc m \<le> j" using j by simp
        then show ?thesis using Suc.prems j by (simp add: insertionIndex_def)
      qed
    qed
    from Suc.IH[OF this] obtain k' where k':
      "walkBackward v d t (m * entryByteLength v) = k' * entryByteLength v"
      "k' \<le> length (entries d)" "\<forall>j < k'. fst (entries d ! j) < t"
      "\<forall>j. k' \<le> j \<and> j < length (entries d) \<longrightarrow> t \<le> fst (entries d ! j)"
      by blast
    have "walkBackward v d t (Suc m * entryByteLength v) = walkBackward v d t (m * entryByteLength v)"
      using True R sub by (subst walkBackward.simps) (simp add: R_def[symmetric], simp add: R_def)
    then show ?thesis using k' by auto
  next
    case False
    then have lt: "fst (entries d ! m) < t" using le by simp
    have "walkBackward v d t (Suc m * entryByteLength v) = Suc m * entryByteLength v"
      using False R sub by (subst walkBackward.simps) (simp add: R_def[symmetric], simp add: R_def)
    moreover have "\<forall>j < Suc m. fst (entries d ! j) < t"
    proof (intro allI impI)
      fix j assume "j < Suc m"
      then have "fst (entries d ! j) \<le> fst (entries d ! m)"
        using sorted_nth_mono[OF srt, of j m] m by simp
      then show "fst (entries d ! j) < t" using lt by simp
    qed
    ultimately show ?thesis
      using Suc.prems unfolding insertionIndex_def by (intro exI[of _ "Suc m"]) simp
  qed
qed

lemma walkForward_spec:
  assumes srt: "sorted (map fst (entries d))"
    and len: "rb_length (arena d) = length (entries d) * entryByteLength v"
  shows "insertionIndex (entries d) t k \<Longrightarrow>
     \<exists>k'. walkForward v d t (k * entryByteLength v) = k' * entryByteLength v
        \<and> k' \<le> length (entries d)
        \<and> (\<forall>j < k'. fst (entries d ! j) \<le> t)
        \<and> (\<forall>j. k' \<le> j \<and> j < length (entries d) \<longrightarrow> t < fst (entries d ! j))"
proof (induction "length (entries d) - k" arbitrary: k)
  case 0
  then have k: "k = length (entries d)" by (simp add: insertionIndex_def)
  have "walkForward v d t (k * entryByteLength v) = k * entryByteLength v"
    using k len by (subst walkForward.simps) simp
  then show ?case using 0(2) k unfolding insertionIndex_def by (intro exI[of _ k]) simp
next
  case (Suc m)
  define R where "R = entryByteLength v"
  have R: "0 < R" unfolding R_def by (rule entryByteLength_pos)
  have k: "k < length (entries d)" using Suc(2) by simp
  then have off: "k * R < rb_length (arena d)" using len R by (simp add: R_def)
  have ge: "t \<le> fst (entries d ! k)" using Suc.prems k by (simp add: insertionIndex_def)
  show ?case
  proof (cases "t = fst (entries d ! k)")
    case True
    have ii: "insertionIndex (entries d) t (Suc k)"
      unfolding insertionIndex_def
    proof (intro conjI allI impI)
      show "Suc k \<le> length (entries d)" using k by simp
    next
      fix j assume "j < Suc k"
      then have "j < k \<or> j = k" by auto
      then show "fst (entries d ! j) \<le> t"
        using Suc.prems True by (auto simp: insertionIndex_def)
    next
      fix j assume "Suc k \<le> j \<and> j < length (entries d)"
      then show "t \<le> fst (entries d ! j)"
        using Suc.prems by (simp add: insertionIndex_def)
    qed
    have "m = length (entries d) - Suc k" using Suc(2) by simp
    from Suc(1)[OF this ii] obtain k' where k':
      "walkForward v d t (Suc k * entryByteLength v) = k' * entryByteLength v"
      "k' \<le> length (entries d)" "\<forall>j < k'. fst (entries d ! j) \<le> t"
      "\<forall>j. k' \<le> j \<and> j < length (entries d) \<longrightarrow> t < fst (entries d ! j)"
      by blast
    have "walkForward v d t (k * entryByteLength v) = walkForward v d t (Suc k * entryByteLength v)"
      using True off by (subst walkForward.simps) (simp add: R_def[symmetric], simp add: R_def add.commute)
    then show ?thesis using k' by auto
  next
    case False
    then have lt: "t < fst (entries d ! k)" using ge by simp
    have "walkForward v d t (k * entryByteLength v) = k * entryByteLength v"
      using False by (subst walkForward.simps) simp
    moreover have "\<forall>j. k \<le> j \<and> j < length (entries d) \<longrightarrow> t < fst (entries d ! j)"
    proof (intro allI impI)
      fix j assume j: "k \<le> j \<and> j < length (entries d)"
      then have "fst (entries d ! k) \<le> fst (entries d ! j)"
        using sorted_nth_mono[OF srt, of k j] by simp
      then show "t < fst (entries d ! j)" using lt by simp
    qed
    ultimately show ?thesis
      using Suc.prems unfolding insertionIndex_def by (intro exI[of _ k]) simp
  qed
qed

lemma split_at_index:
  assumes "k \<le> length es" "\<forall>j < k. P (es ! j)"
    and "\<forall>j. k \<le> j \<and> j < length es \<longrightarrow> \<not> P (es ! j)"
  shows "take k es = filter P es" "drop k es = filter (\<lambda>e. \<not> P e) es"
proof -
  have a: "\<forall>x \<in> set (take k es). P x"
    using assms(1,2) by (auto simp: in_set_conv_nth)
  have b: "\<forall>x \<in> set (drop k es). \<not> P x"
  proof
    fix x assume "x \<in> set (drop k es)"
    then obtain i where "i < length es - k" "x = es ! (k + i)"
      by (auto simp: in_set_conv_nth)
    then show "\<not> P x" using assms(3) by simp
  qed
  have "filter P es = filter P (take k es) @ filter P (drop k es)"
    by (metis append_take_drop_id filter_append)
  also have "\<dots> = take k es"
    using a b by (simp add: filter_empty_conv)
  finally show "take k es = filter P es" by simp
  have "filter (\<lambda>e. \<not> P e) es = filter (\<lambda>e. \<not> P e) (take k es) @ filter (\<lambda>e. \<not> P e) (drop k es)"
    by (metis append_take_drop_id filter_append)
  also have "\<dots> = drop k es"
    using a b by (simp add: filter_empty_conv)
  finally show "drop k es = filter (\<lambda>e. \<not> P e) es" by simp
qed

text \<open>The two offsets of a range, as indices of records.\<close>

lemma getTimeRangeByteOffsets_spec:
  assumes inv: "dataInvariant v d"
  shows "\<exists>kf kt. getTimeRangeByteOffsets v d from to
                 = Inr (kf * entryByteLength v, kt * entryByteLength v)
     \<and> kf \<le> length (entries d) \<and> kt \<le> length (entries d)
     \<and> take kf (entries d) = filter (\<lambda>e. fst e < from) (entries d)
     \<and> drop kf (entries d) = filter (\<lambda>e. from \<le> fst e) (entries d)
     \<and> take kt (entries d) = filter (\<lambda>e. fst e \<le> to) (entries d)
     \<and> drop kt (entries d) = filter (\<lambda>e. to < fst e) (entries d)"
proof -
  have srt: "sorted (map fst (entries d))" and len: "rb_length (arena d) = length (entries d) * entryByteLength v"
    using inv by (simp_all add: dataInvariant_def)
  obtain k1 where k1: "getInsertionByteOffset v d from = Inr (k1 * entryByteLength v)"
      "insertionIndex (entries d) from k1"
    using getInsertionByteOffset_spec[OF inv, of "from"] by blast
  obtain k2 where k2: "getInsertionByteOffset v d to = Inr (k2 * entryByteLength v)"
      "insertionIndex (entries d) to k2"
    using getInsertionByteOffset_spec[OF inv, of to] by blast
  obtain kf where kf: "walkBackward v d from (k1 * entryByteLength v) = kf * entryByteLength v"
      "kf \<le> length (entries d)" "\<forall>j < kf. fst (entries d ! j) < from"
      "\<forall>j. kf \<le> j \<and> j < length (entries d) \<longrightarrow> from \<le> fst (entries d ! j)"
    using walkBackward_spec[OF srt k1(2), of v] by blast
  obtain kt where kt: "walkForward v d to (k2 * entryByteLength v) = kt * entryByteLength v"
      "kt \<le> length (entries d)" "\<forall>j < kt. fst (entries d ! j) \<le> to"
      "\<forall>j. kt \<le> j \<and> j < length (entries d) \<longrightarrow> to < fst (entries d ! j)"
    using walkForward_spec[OF srt len k2(2)] by blast
  have o: "getTimeRangeByteOffsets v d from to = Inr (kf * entryByteLength v, kt * entryByteLength v)"
    by (simp add: getTimeRangeByteOffsets_def k1(1) k2(1) kf(1) kt(1))
  have f: "take kf (entries d) = filter (\<lambda>e. fst e < from) (entries d)"
      "drop kf (entries d) = filter (\<lambda>e. from \<le> fst e) (entries d)"
    using split_at_index[of kf "entries d" "\<lambda>e. fst e < from"] kf(2,3,4)
    by (simp_all add: not_less)
  have t: "take kt (entries d) = filter (\<lambda>e. fst e \<le> to) (entries d)"
      "drop kt (entries d) = filter (\<lambda>e. to < fst e) (entries d)"
    using split_at_index[of kt "entries d" "\<lambda>e. fst e \<le> to"] kt(2,3,4)
    by (simp_all add: not_le)
  show ?thesis using o kf(2) kt(2) f t by blast
qed

lemma readEntry_index [simp]:
  "readEntry v d (k * entryByteLength v) = entries d ! k"
  by (simp add: readEntry_def)

lemma resize_shrink:
  assumes "arenaInvariant a" "m \<le> rb_length a"
  shows "resize m a = (Inr (), a\<lparr>rb_length := m\<rparr>)"
  using assms by (auto simp: resize_def arenaInvariant_def)

lemma range_slice:
  fixes es :: "entry list"
  assumes f: "take kf es = filter (\<lambda>e. fst e < a) es" "drop kf es = filter (\<lambda>e. a \<le> fst e) es"
    and t: "take kt es = filter (\<lambda>e. fst e \<le> c) es" "drop kt es = filter (\<lambda>e. c < fst e) es"
    and k: "kf \<le> length es" "kt \<le> length es" and ac: "a \<le> c"
  shows "kf \<le> kt"
    and "take (kt - kf) (drop kf es) = filter (\<lambda>e. a \<le> fst e \<and> fst e \<le> c) es"
    and "take kf es @ drop kt es = filter (\<lambda>e. \<not> (a \<le> fst e \<and> fst e \<le> c)) es"
proof -
  show le: "kf \<le> kt"
  proof (rule ccontr)
    assume "\<not> kf \<le> kt"
    then have lt: "kt < kf" by simp
    then have "es ! kt \<in> set (take kf es)" using k(1) by (auto simp: in_set_conv_nth)
    then have 1: "fst (es ! kt) < a" unfolding f(1) by simp
    have "kt < length es" using lt k(1) by simp
    then have "es ! kt \<in> set (drop kt es)"
      by (metis Cons_nth_drop_Suc list.set_intros(1))
    then have "c < fst (es ! kt)" unfolding t(2) by simp
    then show False using 1 ac by simp
  qed
  have "filter (\<lambda>e. fst e \<le> c) es
        = filter (\<lambda>e. fst e \<le> c) (take kf es) @ filter (\<lambda>e. fst e \<le> c) (drop kf es)"
    by (metis append_take_drop_id filter_append)
  moreover have "filter (\<lambda>e. fst e \<le> c) (take kf es) = take kf es"
  proof (rule filter_True)
    have "set (take kf es) = set (filter (\<lambda>e. fst e < a) es)" using f(1) by simp
    then show "\<forall>x \<in> set (take kf es). fst x \<le> c" using ac by auto
  qed
  moreover have "filter (\<lambda>e. fst e \<le> c) (drop kf es) = filter (\<lambda>e. a \<le> fst e \<and> fst e \<le> c) es"
    unfolding f(2) by (simp add: conj_commute)
  ultimately have tk: "take kt es = take kf es @ filter (\<lambda>e. a \<le> fst e \<and> fst e \<le> c) es"
    unfolding t(1) by simp
  have "drop kf (take kt es) = filter (\<lambda>e. a \<le> fst e \<and> fst e \<le> c) es"
    unfolding tk using k(1) by simp
  then show mid: "take (kt - kf) (drop kf es) = filter (\<lambda>e. a \<le> fst e \<and> fst e \<le> c) es"
    by (simp add: drop_take)
  let ?Q = "\<lambda>e. \<not> (a \<le> fst e \<and> fst e \<le> c)"
  have es: "es = take kf es @ take (kt - kf) (drop kf es) @ drop kt es"
    using le by (metis add_diff_inverse_nat append_take_drop_id drop_drop not_less add.commute)
  have q1: "filter ?Q (take kf es) = take kf es"
  proof (rule filter_True)
    have "set (take kf es) = set (filter (\<lambda>e. fst e < a) es)" using f(1) by simp
    then show "\<forall>x \<in> set (take kf es). ?Q x" by auto
  qed
  have q2: "filter ?Q (take (kt - kf) (drop kf es)) = []"
  proof -
    have "set (take (kt - kf) (drop kf es)) = set (filter (\<lambda>e. a \<le> fst e \<and> fst e \<le> c) es)"
      using mid by simp
    then show ?thesis by (auto simp: filter_empty_conv)
  qed
  have q3: "filter ?Q (drop kt es) = drop kt es"
  proof (rule filter_True)
    have "set (drop kt es) = set (filter (\<lambda>e. c < fst e) es)" using t(2) by simp
    then show "\<forall>x \<in> set (drop kt es). ?Q x" by auto
  qed
  have "filter ?Q es = filter ?Q (take kf es @ take (kt - kf) (drop kf es) @ drop kt es)"
    using es by simp
  then show "take kf es @ drop kt es = filter ?Q es"
    unfolding filter_append q1 q2 q3 by simp
qed

lemma out_of_range_filter:
  assumes "bucketInvariant b" "a \<ge> bucket_to b \<or> c < bucket_from b"
  shows "filter (\<lambda>e. a \<le> fst e \<and> fst e \<le> c) (entries (loadData b)) = []"
  using assms
  by (auto simp: bucketInvariant_def list_all_iff isTimeInRange_def filter_empty_conv)

lemma select_asc_spec:
  assumes inv: "bucketInvariant b" and ac: "a \<le> c"
  shows "fst (select True a c b)
         = Inr (filter (\<lambda>e. a \<le> fst e \<and> fst e \<le> c) (entries (loadData b)))"
proof (cases "a \<ge> bucket_to b \<or> c < bucket_from b")
  case True
  then show ?thesis using out_of_range_filter[OF inv True] by (simp add: select_def)
next
  case False
  define d where "d = loadData b"
  define v where "v = valueByteLength b"
  define R where "R = entryByteLength v"
  have R: "0 < R" unfolding R_def by (rule entryByteLength_pos)
  have di: "dataInvariant v d" using inv by (simp add: bucketInvariant_def d_def v_def)
  from getTimeRangeByteOffsets_spec[OF di, of a c] obtain kf kt where
    o: "getTimeRangeByteOffsets v d a c = Inr (kf * R, kt * R)"
    and k: "kf \<le> length (entries d)" "kt \<le> length (entries d)"
    and f: "take kf (entries d) = filter (\<lambda>e. fst e < a) (entries d)"
       "drop kf (entries d) = filter (\<lambda>e. a \<le> fst e) (entries d)"
    and t: "take kt (entries d) = filter (\<lambda>e. fst e \<le> c) (entries d)"
       "drop kt (entries d) = filter (\<lambda>e. c < fst e) (entries d)"
    unfolding R_def by blast
  note rs = range_slice[OF f t k ac]
  have n: "(kt * R - kf * R) div R = kt - kf"
    using R by (simp add: diff_mult_distrib[symmetric])
  have "map (\<lambda>i. readEntry v d (kf * R + i * R)) [0..<kt - kf]
        = map (\<lambda>i. entries d ! (kf + i)) [0..<kt - kf]"
    by (simp add: add_mult_distrib[symmetric] R_def)
  also have "\<dots> = take (kt - kf) (drop kf (entries d))"
    using rs(1) k by (intro nth_equalityI) auto
  finally have m: "map (\<lambda>i. readEntry v d (kf * R + i * R)) [0..<kt - kf]
        = filter (\<lambda>e. a \<le> fst e \<and> fst e \<le> c) (entries d)"
    using rs(2) by simp
  have nlt: "\<not> kt * R < kf * R" using rs(1) by simp
  have "fst (select True a c b) = Inr (map (\<lambda>i. readEntry v d (kf * R + i * R)) [0..<kt - kf])"
    using False o nlt n
    by (simp add: select_def d_def[symmetric] v_def[symmetric] R_def[symmetric] Let_def)
  then show ?thesis using m by (simp add: d_def)
qed

lemma delete_spec:
  assumes inv: "bucketInvariant b" and ac: "a \<le> c"
  shows "fst (bucket_delete a c b) = Inr ()"
    and "entries (loadData (snd (bucket_delete a c b)))
         = filter (\<lambda>e. \<not> (a \<le> fst e \<and> fst e \<le> c)) (entries (loadData b))"
proof -
  have "fst (bucket_delete a c b) = Inr ()
      \<and> entries (loadData (snd (bucket_delete a c b)))
         = filter (\<lambda>e. \<not> (a \<le> fst e \<and> fst e \<le> c)) (entries (loadData b))"
  proof (cases "a \<ge> bucket_to b \<or> c < bucket_from b")
    case True
    have "filter (\<lambda>e. \<not> (a \<le> fst e \<and> fst e \<le> c)) (entries (loadData b)) = entries (loadData b)"
      using inv True
      by (auto simp: bucketInvariant_def list_all_iff isTimeInRange_def filter_id_conv)
    then show ?thesis using True by (simp add: bucket_delete_def)
  next
    case False
    define d where "d = loadData b"
    define v where "v = valueByteLength b"
    define R where "R = entryByteLength v"
    have R: "0 < R" unfolding R_def by (rule entryByteLength_pos)
    have di: "dataInvariant v d" using inv by (simp add: bucketInvariant_def d_def v_def)
    from getTimeRangeByteOffsets_spec[OF di, of a c] obtain kf kt where
      o: "getTimeRangeByteOffsets v d a c = Inr (kf * R, kt * R)"
      and k: "kf \<le> length (entries d)" "kt \<le> length (entries d)"
      and f: "take kf (entries d) = filter (\<lambda>e. fst e < a) (entries d)"
         "drop kf (entries d) = filter (\<lambda>e. a \<le> fst e) (entries d)"
      and t: "take kt (entries d) = filter (\<lambda>e. fst e \<le> c) (entries d)"
         "drop kt (entries d) = filter (\<lambda>e. c < fst e) (entries d)"
      unfolding R_def by blast
    note rs = range_slice[OF f t k ac]
    show ?thesis
    proof (cases "kf = kt")
      case True
      then have "bucket_delete a c b = (Inr (), b\<lparr>data := Some d\<rparr>)"
        using False o
        by (simp add: bucket_delete_def d_def[symmetric] v_def[symmetric] R_def[symmetric] Let_def)
      moreover have "entries d = filter (\<lambda>e. \<not> (a \<le> fst e \<and> fst e \<le> c)) (entries d)"
        using rs(3) True by simp
      ultimately show ?thesis by (simp add: d_def[symmetric])
    next
      case ne: False
      then have lt: "kf < kt" using rs(1) by simp
      then have ne': "kf * R \<noteq> kt * R" and le': "kf * R \<le> kt * R" using R by auto
      have ai: "arenaInvariant (arena d)" using di by (simp add: dataInvariant_def)
      have r: "resize (rb_length (arena d) - (kt * R - kf * R)) (arena d)
            = (Inr (), (arena d)\<lparr>rb_length := rb_length (arena d) - (kt * R - kf * R)\<rparr>)"
        by (rule resize_shrink[OF ai]) simp
      define b' where "b' = b\<lparr>data := Some \<lparr>arena = (arena d)\<lparr>rb_length := rb_length (arena d) - (kt * R - kf * R)\<rparr>,
                                     entries = take kf (entries d) @ drop kt (entries d)\<rparr>,
                        requireFlush := True\<rparr>"
      have bd: "bucket_delete a c b = (Inr (), b')"
        using False o ne' le' r R unfolding b'_def
        by (simp add: bucket_delete_def d_def[symmetric] v_def[symmetric] R_def[symmetric] Let_def)
      have "entries (loadData b') = take kf (entries d) @ drop kt (entries d)"
        by (simp add: b'_def loadData_def)
      then have "entries (loadData b') = filter (\<lambda>e. \<not> (a \<le> fst e \<and> fst e \<le> c)) (entries d)"
        using rs(3) by simp
      then show ?thesis unfolding bd d_def by simp
    qed
  qed
  then show "fst (bucket_delete a c b) = Inr ()"
    and "entries (loadData (snd (bucket_delete a c b)))
         = filter (\<lambda>e. \<not> (a \<le> fst e \<and> fst e \<le> c)) (entries (loadData b))"
    by simp_all
qed

lemmas invariant_defs =
  bucketInvariant_def dataInvariant_def arenaInvariant_def


section \<open>Pushing and selecting\<close>

lemma unat_shift_one:
  assumes "m < 32"
  shows "unat ((2 :: 32 word) ^ m) = 2 ^ m"
proof -
  have lt: "(2::nat) ^ m < 2 ^ 32"
    using assms by (intro power_strict_increasing) auto
  have "(2 :: 32 word) ^ m = word_of_nat (2 ^ m)" by simp
  then have "unat ((2 :: 32 word) ^ m) = (2 :: nat) ^ m mod 2 ^ 32"
    by (simp only: unat_of_nat) simp
  also have "\<dots> = 2 ^ m"
    using lt by (rule mod_less)
  finally show ?thesis .
qed

lemma getOptimalBufferLength_power:
  assumes "0 < n"
  shows "getOptimalBufferLength n = 2 ^ (ceilLog2Half_from 0 n mod 32)"
  using assms by (simp add: getOptimalBufferLength_code unat_shift_one)

lemma getOptimalBufferLength_le: "getOptimalBufferLength n \<le> 2 ^ 31"
proof (cases "n = 0")
  case True
  then show ?thesis by (simp add: getOptimalBufferLength_def)
next
  case False
  have "ceilLog2Half_from 0 n mod 32 \<le> 31" by simp
  then have "(2::nat) ^ (ceilLog2Half_from 0 n mod 32) \<le> 2 ^ 31"
    by (intro power_increasing) auto
  then show ?thesis using False by (simp add: getOptimalBufferLength_power)
qed

lemma power2_less_imp: "(x::nat)\<^sup>2 < y\<^sup>2 \<Longrightarrow> x < y"
  using power2_less_imp_less[of x y] by simp

lemma four_power: "(4::nat) ^ k = (2 ^ k)\<^sup>2"
proof -
  have "(4::nat) ^ k = (2 * 2) ^ k" by simp
  also have "\<dots> = 2 ^ k * 2 ^ k" by (rule power_mult_distrib)
  finally show ?thesis by (simp add: power2_eq_square)
qed

lemma getOptimalBufferLength_small:
  assumes "0 < n" "getOptimalBufferLength n < n"
  shows "getOptimalBufferLength n * 2 ^ 30 < n"
proof -
  define k where "k = ceilLog2Half_from 0 n"
  have s: "2 * n\<^sup>2 \<le> 4 ^ k" "4 ^ k < 8 * n\<^sup>2"
    using ceilLog2Half_from_spec[of n 0] assms(1) unfolding k_def by auto
  have opt: "getOptimalBufferLength n = 2 ^ (k mod 32)"
    using assms(1) by (simp add: getOptimalBufferLength_power k_def)
  have k32: "32 \<le> k"
  proof (rule ccontr)
    assume "\<not> 32 \<le> k"
    then have "k mod 32 = k" by simp
    then have o: "getOptimalBufferLength n = 2 ^ k" using opt by simp
    have "n\<^sup>2 < (2 ^ k)\<^sup>2"
    proof -
      have "n\<^sup>2 < 2 * n\<^sup>2" using assms(1) by simp
      also have "\<dots> \<le> 4 ^ k" by (rule s(1))
      also have "(4::nat) ^ k = (2 ^ k)\<^sup>2" by (rule four_power)
      finally show ?thesis .
    qed
    then have "n < 2 ^ k" by (rule power2_less_imp)
    then show False using assms(2) o by simp
  qed
  have "k mod 32 + 30 \<le> k - 2"
  proof -
    have "k mod 32 = (k - 32) mod 32" using k32 by (simp add: le_mod_geq)
    then have "k mod 32 \<le> k - 32" by simp
    then show ?thesis using k32 by linarith
  qed
  then have "(2::nat) ^ (k mod 32 + 30) \<le> 2 ^ (k - 2)"
    by (intro power_increasing) auto
  then have le: "getOptimalBufferLength n * 2 ^ 30 \<le> 2 ^ (k - 2)"
    unfolding opt by (simp add: power_add)
  have "(2 ^ (k - 2))\<^sup>2 < n\<^sup>2"
  proof -
    have e: "(4::nat) ^ ((k - 2) + 2) = 4 ^ (k - 2) * 16" by (simp add: power_add)
    have "(k - 2) + 2 = k" using k32 by simp
    from e[unfolded this] have "(4::nat) ^ k = 4 ^ (k - 2) * 16" .
    then have "(4::nat) ^ (k - 2) * 16 < 8 * n\<^sup>2" using s(2) by simp
    then have "(4::nat) ^ (k - 2) < n\<^sup>2" by simp
    moreover have "(4::nat) ^ (k - 2) = (2 ^ (k - 2))\<^sup>2" by (rule four_power)
    ultimately show ?thesis by simp
  qed
  then have "2 ^ (k - 2) < n" by (rule power2_less_imp)
  then show ?thesis using le by simp
qed

lemma resize_grow_invariant:
  assumes inv: "arenaInvariant a"
    and r: "resize (rb_length a + r) a = (Inr (), a')"
    and hole: "off + r \<le> bytes_length a'" and off: "off \<le> rb_length a" and r8: "8 \<le> r"
  shows "arenaInvariant a'" and "rb_length a' = rb_length a + r"
proof -
  define m where "m = rb_length a + r"
  define c where "c = getOptimalBufferLength m"
  have m0: "0 < m" using r8 by (simp add: m_def)
  have c31: "c \<le> 2 ^ 31" unfolding c_def by (rule getOptimalBufferLength_le)
  have small: "c * 2 ^ 30 < m" if "c < m"
    using getOptimalBufferLength_small[OF m0] that by (simp add: c_def)
  show len: "rb_length a' = rb_length a + r" using resize_length[OF r] .
  show "arenaInvariant a'"
  proof (cases "buffer_resizable a")
    case True
    then have mx: "buffer_maxByteLength a = 0x100000000" "bytes_length a = buffer_byteLength a"
        "buffer_byteLength a \<le> buffer_maxByteLength a" "rb_length a \<le> bytes_length a"
      using inv by (auto simp: arenaInvariant_def)
    have lim: "m \<le> 0x100000000"
      using r True mx(1) by (auto simp: resize_def m_def split: if_splits)
    show ?thesis
    proof (cases "m > buffer_byteLength a")
      case False
      then have "a' = a\<lparr>rb_length := m\<rparr>"
        using r True lim mx(1) by (auto simp: resize_def m_def split: if_splits)
      then show ?thesis using inv False True by (auto simp: arenaInvariant_def)
    next
      case grow: True
      have cmin: "min (buffer_maxByteLength a) c = c" using c31 mx(1) by simp
      have a': "a' = a\<lparr>buffer_byteLength := c, bytes_length := c, rb_length := m\<rparr>"
        using r True lim mx(1) grow cmin
        by (auto simp: resize_def m_def[symmetric] c_def[symmetric] Let_def split: if_splits)
      have "m \<le> c"
      proof (rule ccontr)
        assume "\<not> m \<le> c"
        then have "c * 2 ^ 30 < m" using small by simp
        then have "c * 2 ^ 30 < 0x100000000" using lim by simp
        then have "c < 4" by simp
        moreover have "8 \<le> c" using hole r8 a' by simp
        ultimately show False by simp
      qed
      then show ?thesis using a' True mx(1) c31 by (auto simp: arenaInvariant_def)
    qed
  next
    case False
    have bl: "rb_length a \<le> bytes_length a" "bytes_length a = buffer_byteLength a"
      using inv by (auto simp: arenaInvariant_def)
    show ?thesis
    proof (cases "m > buffer_byteLength a")
      case nogrow: False
      then have "a' = a\<lparr>rb_length := m\<rparr>"
        using r False by (auto simp: resize_def m_def split: if_splits)
      then show ?thesis using inv nogrow False hole off bl
        by (auto simp: arenaInvariant_def m_def)
    next
      case grow: True
      have cmin: "min 0x100000000 c = c" using c31 by simp
      have fit: "bytes_length a \<le> c"
        using r False grow cmin
        by (auto simp: resize_def m_def[symmetric] c_def[symmetric] Let_def split: if_splits)
      have a': "a' = \<lparr>buffer_resizable = True, buffer_maxByteLength = 0x100000000,
                   buffer_byteLength = c, bytes_length = c, rb_length = m\<rparr>"
        using r False grow cmin
        by (auto simp: resize_def m_def[symmetric] c_def[symmetric] Let_def split: if_splits)
      have "m \<le> c"
      proof (rule ccontr)
        assume "\<not> m \<le> c"
        then have "c * 2 ^ 30 < m" using small by simp
        moreover have "m \<le> 2 * c" using fit bl(1) hole a' by (simp add: m_def)
        ultimately have "c * 2 ^ 30 < 2 * c" by simp
        then show False by simp
      qed
      then show ?thesis using a' c31 by (auto simp: arenaInvariant_def)
    qed
  qed
qed

lemma pushRaw_spec:
  assumes inv: "dataInvariant v d" and p: "pushRaw v t val d = (Inr off, d')"
  shows "dataInvariant v d'"
    and "\<exists>k \<le> length (entries d).
           entries d' = take k (entries d) @ [(t, val)] @ drop k (entries d)"
proof -
  define R where "R = entryByteLength v"
  have R: "0 < R" "8 \<le> R"
    unfolding R_def using entryByteLength_pos eight_le_entryByteLength by auto
  obtain k where k: "getInsertionByteOffset v d t = Inr (k * R)"
      "insertionIndex (entries d) t k"
    using getInsertionByteOffset_spec[OF inv, of t] unfolding R_def by blast
  have kn: "k \<le> length (entries d)" using k(2) by (simp add: insertionIndex_def)
  have len: "rb_length (arena d) = length (entries d) * R"
    and ai: "arenaInvariant (arena d)" and srt: "sorted (map fst (entries d))"
    using inv by (simp_all add: dataInvariant_def R_def)
  obtain a' where r: "resize (rb_length (arena d) + R) (arena d) = (Inr (), a')"
    and hole: "k * R + R \<le> bytes_length a'"
    and d': "d' = \<lparr>arena = a', entries = take k (entries d) @ [(t, val)] @ drop k (entries d)\<rparr>"
    using p k(1) R(1) unfolding pushRaw_def R_def[symmetric]
    by (auto split: prod.splits sum.splits if_splits)
  have off: "k * R \<le> rb_length (arena d)" using kn len by simp
  note g = resize_grow_invariant[OF ai r hole off R(2)]
  have l': "rb_length (arena d') = length (entries d') * R"
    using g(2) len kn by (simp add: d')
  have "map fst (entries d') = splice k t (map fst (entries d))"
    by (simp add: d' splice_def take_map drop_map)
  moreover have "sorted (splice k t (map fst (entries d)))"
  proof (rule sorted_splice[OF srt])
    show "k \<le> length (map fst (entries d))" using kn by simp
  next
    fix i assume "i < k"
    then show "map fst (entries d) ! i \<le> t"
      using k(2) kn by (simp add: insertionIndex_def)
  next
    fix i assume "k \<le> i" "i < length (map fst (entries d))"
    then show "t \<le> map fst (entries d) ! i"
      using k(2) by (simp add: insertionIndex_def)
  qed
  ultimately have s': "sorted (map fst (entries d'))" by simp
  show "dataInvariant v d'"
    using l' g(1) s' by (simp add: dataInvariant_def R_def d')
  show "\<exists>k \<le> length (entries d).
           entries d' = take k (entries d) @ [(t, val)] @ drop k (entries d)"
    using kn d' by auto
qed

lemma isTimeInRange_cong:
  "bucket_id b' = bucket_id b \<Longrightarrow> isTimeInRange b' = isTimeInRange b"
  by (rule ext) (simp add: isTimeInRange_def bucket_from_def bucket_to_def)

lemma push_spec:
  assumes inv: "bucketInvariant b" and p: "push t val b = (Inr (), b')"
  shows "bucketInvariant b'"
    and "mset (entries (loadData b')) = mset (entries (loadData b)) + {#(t, val)#}"
    and "bucket_id b' = bucket_id b"
proof -
  define d where "d = loadData b"
  define v where "v = valueByteLength b"
  have di: "dataInvariant v d" and ra: "list_all (\<lambda>e. isTimeInRange b (fst e)) (entries d)"
    using inv by (simp_all add: bucketInvariant_def d_def v_def)
  obtain off d' where pr: "pushRaw v t val d = (Inr off, d')"
    and tr: "isTimeInRange b t"
    and b': "b' = b\<lparr>data := Some d', requireFlush := True\<rparr>"
    using p unfolding push_def d_def[symmetric] v_def[symmetric]
    by (auto simp: Let_def split: if_splits prod.splits sum.splits)
  have ld: "loadData b' = d'" by (simp add: b' loadData_def)
  show id: "bucket_id b' = bucket_id b" by (simp add: b')
  from pushRaw_spec[OF di pr] obtain k where di': "dataInvariant v d'"
    and e: "entries d' = take k (entries d) @ [(t, val)] @ drop k (entries d)"
    by blast
  have "mset (entries d') = mset (take k (entries d)) + mset (drop k (entries d)) + {#(t, val)#}"
    by (simp add: e)
  also have "mset (take k (entries d)) + mset (drop k (entries d)) = mset (entries d)"
    by (metis append_take_drop_id mset_append)
  finally show "mset (entries (loadData b')) = mset (entries (loadData b)) + {#(t, val)#}"
    by (simp add: ld d_def)
  have vb: "valueByteLength b' = v" by (simp add: b' v_def)
  have ir: "isTimeInRange b' = isTimeInRange b" by (rule isTimeInRange_cong[OF id])
  have "list_all (\<lambda>e. isTimeInRange b (fst e)) (entries d')"
  proof -
    have "set (entries d') \<subseteq> insert (t, val) (set (entries d))"
      unfolding e using set_take_subset[of k "entries d"] set_drop_subset[of k "entries d"]
      by auto
    then show ?thesis using ra tr by (auto simp: list_all_iff)
  qed
  then show "bucketInvariant b'"
    unfolding bucketInvariant_def ld vb ir using di' by simp
qed

lemma pushAll_spec:
  "bucketInvariant b \<Longrightarrow> pushAll ps b = (Inr (), b') \<Longrightarrow>
   bucketInvariant b' \<and> mset (entries (loadData b')) = mset (entries (loadData b)) + mset ps
   \<and> bucket_id b' = bucket_id b"
proof (induction ps arbitrary: b)
  case Nil
  then show ?case by simp
next
  case (Cons p ps)
  obtain t val where pp: "p = (t, val)" by (cases p)
  from Cons.prems(2) obtain b1 where p1: "push t val b = (Inr (), b1)"
    and r: "pushAll ps b1 = (Inr (), b')"
    unfolding pp by (auto split: prod.splits sum.splits)
  note s = push_spec[OF Cons.prems(1) p1]
  from Cons.IH[OF s(1) r] show ?case using s(2,3) by (simp add: pp)
qed

lemma filter_same_key:
  "distinct (map f xs) \<Longrightarrow> k \<in> set xs \<Longrightarrow> filter (\<lambda>x. f k = f x) xs = [k]"
proof (induction xs)
  case Nil
  then show ?case by simp
next
  case (Cons x xs)
  show ?case
  proof (cases "k = x")
    case True
    have "filter (\<lambda>y. f x = f y) xs = []"
      using Cons.prems(1) by (auto simp: filter_empty_conv)
    then show ?thesis using True by simp
  next
    case False
    then have kin: "k \<in> set xs" using Cons.prems(2) by simp
    have "f x \<notin> f ` set xs" using Cons.prems(1) by simp
    then have "f k \<noteq> f x" using kin by (metis imageI)
    then show ?thesis using Cons.IH kin Cons.prems(1) by simp
  qed
qed

lemma sorted_distinct_keys_unique:
  assumes "mset ys = mset xs" "sorted (map f ys)" "distinct (map f xs)"
  shows "sort_key f xs = ys"
proof (rule properties_for_sort_key[OF assms(1) _ assms(2)])
  fix k assume k: "k \<in> set ys"
  have "mset (map f ys) = mset (map f xs)" using assms(1) by simp
  then have dy: "distinct (map f ys)"
    using assms(3) by (metis mset_eq_imp_distinct_iff)
  have kx: "k \<in> set xs" using k assms(1) by (metis mset_eq_setD)
  show "filter (\<lambda>x. f k = f x) ys = filter (\<lambda>x. f k = f x) xs"
    using filter_same_key[OF dy k] filter_same_key[OF assms(3) kx] by simp
qed

lemma bucket_from_less_to: "bucket_from b < bucket_to b"
  by (simp add: bucket_from_def bucket_to_def getTimeFromId_def timeRange_def)

text \<open>
  C1. Starting from an empty bucket that satisfies its invariant, after a sequence of
  \<^verbatim>\<open>push\<close> calls that all succeed, with pairwise distinct times, a \<^verbatim>\<open>select\<close> with
  \<open>asc: true\<close> over a range that covers the bucket returns exactly the pushed entries,
  sorted by time.
\<close>

theorem pushes_then_select_all:
  assumes "bucketInvariant b" and "entries (loadData b) = []"
    and "pushAll ps b = (Inr (), b')" and "distinct (map fst ps)"
    and "a \<le> bucket_from b" and "bucket_to b \<le> c"
  shows "fst (select True a c b') = Inr (sort_key fst ps)"
proof -
  from pushAll_spec[OF assms(1,3)] have inv': "bucketInvariant b'"
    and ms: "mset (entries (loadData b')) = mset ps" and id: "bucket_id b' = bucket_id b"
    using assms(2) by simp_all
  have ft: "bucket_from b' = bucket_from b" "bucket_to b' = bucket_to b"
    using id by (simp_all add: bucket_from_def bucket_to_def)
  have ac: "a \<le> c" using assms(5,6) bucket_from_less_to[of b] by simp
  have "list_all (\<lambda>e. isTimeInRange b' (fst e)) (entries (loadData b'))"
    using inv' by (simp add: bucketInvariant_def)
  then have "\<forall>e \<in> set (entries (loadData b')). a \<le> fst e \<and> fst e \<le> c"
    using assms(5,6) ft by (auto simp: list_all_iff isTimeInRange_def)
  then have "filter (\<lambda>e. a \<le> fst e \<and> fst e \<le> c) (entries (loadData b')) = entries (loadData b')"
    by (rule filter_True)
  then have sel: "fst (select True a c b') = Inr (entries (loadData b'))"
    using select_asc_spec[OF inv' ac] by simp
  have "sorted (map fst (entries (loadData b')))"
    using inv' by (simp add: bucketInvariant_def dataInvariant_def)
  then have "sort_key fst ps = entries (loadData b')"
    using ms assms(4) by (intro sorted_distinct_keys_unique) auto
  then show ?thesis using sel by simp
qed

theorem pushes_then_select_all_witness:
  "bucketInvariant (newZektaTimeBucket 0 2 None)
   \<and> entries (loadData (newZektaTimeBucket 0 2 None)) = []
   \<and> pushAll [(10, [1, 0]), (1, [2, 0]), (2, [3, 0]), (4, [4, 0])] (newZektaTimeBucket 0 2 None)
       = (Inr (), \<lparr>bucket_id = 0, valueByteLength = 2,
            data = Some \<lparr>arena = ResizeableBuffer_new\<lparr>rb_length := 40\<rparr>,
                         entries = [(1, [2, 0]), (2, [3, 0]), (4, [4, 0]), (10, [1, 0])]\<rparr>,
            requireFlush = True, bucket_file = None\<rparr>)
   \<and> distinct (map fst [(10 :: real, [1, 0 :: byte]), (1, [2, 0]), (2, [3, 0]), (4, [4, 0])])
   \<and> 0 \<le> bucket_from (newZektaTimeBucket 0 2 None)
   \<and> bucket_to (newZektaTimeBucket 0 2 None) \<le> 512
   \<and> fst (select True 0 512 \<lparr>bucket_id = 0, valueByteLength = 2,
            data = Some \<lparr>arena = ResizeableBuffer_new\<lparr>rb_length := 40\<rparr>,
                         entries = [(1, [2, 0]), (2, [3, 0]), (4, [4, 0]), (10, [1, 0])]\<rparr>,
            requireFlush = True, bucket_file = None\<rparr>)
       = Inr [(1, [2, 0]), (2, [3, 0]), (4, [4, 0]), (10, [1, 0])]"
proof -
  let ?b = "newZektaTimeBucket 0 2 None"
  let ?ps = "[(10 :: real, [1, 0 :: byte]), (1, [2, 0]), (2, [3, 0]), (4, [4, 0])]"
  let ?b' = "\<lparr>bucket_id = 0, valueByteLength = 2,
            data = Some \<lparr>arena = ResizeableBuffer_new\<lparr>rb_length := 40\<rparr>,
                         entries = [(1, [2, 0]), (2, [3, 0]), (4, [4, 0]), (10, [1, 0])]\<rparr>,
            requireFlush = True, bucket_file = None\<rparr>"
  have inv: "bucketInvariant ?b"
    by (simp add: invariant_defs bucket_defs)
  have e: "entries (loadData ?b) = []" by (simp add: bucket_defs)
  have p: "pushAll ?ps ?b = (Inr (), ?b')"
    by (simp add: bucket_defs binarySearch_def binarySearch_loop.simps)
  have d: "distinct (map fst ?ps)" by simp
  have f: "0 \<le> bucket_from ?b" by (simp add: bucket_defs)
  have t: "bucket_to ?b \<le> 512" by (simp add: bucket_defs)
  have s: "sort_key fst ?ps = [(1, [2, 0]), (2, [3, 0]), (4, [4, 0]), (10, [1, 0])]"
    by simp
  show ?thesis
    using pushes_then_select_all[OF inv e p d f t] inv e p f t unfolding s by simp
qed

subsection \<open>The bucket invariant is established and kept\<close>

text \<open>
  A new bucket satisfies \<^const>\<open>bucketInvariant\<close>, and every operation that returns normally keeps it
  (deletion for bounds in order), so the hypothesis of the range theorems
  holds for every bucket reached from a new one by such operations.
\<close>

lemma arenaInvariant_new: "arenaInvariant ResizeableBuffer_new"
  by (simp add: arenaInvariant_def ResizeableBuffer_new_def)

lemma arenaInvariant_wrap: "arenaInvariant (ResizeableBuffer_wrap n)"
  by (simp add: arenaInvariant_def ResizeableBuffer_wrap_def)

lemma bucketInvariant_new: "bucketInvariant (newZektaTimeBucket i v None)"
  by (simp add: bucketInvariant_def dataInvariant_def arenaInvariant_new loadData_def
      newZektaTimeBucket_def) (simp add: ResizeableBuffer_new_def)

lemma bucketInvariant_cong:
  assumes "loadData b' = loadData b" "valueByteLength b' = valueByteLength b"
    "bucket_id b' = bucket_id b"
  shows "bucketInvariant b' = bucketInvariant b"
  unfolding bucketInvariant_def assms(1,2) isTimeInRange_cong[OF assms(3)] ..

lemma bucketInvariant_loaded:
  "bucketInvariant (b\<lparr>data := Some (loadData b)\<rparr>) = bucketInvariant b"
  by (rule bucketInvariant_cong) simp_all

lemma snd_select:
  "snd (select asc a c b)
     = (if a \<ge> bucket_to b \<or> c < bucket_from b then b else b\<lparr>data := Some (loadData b)\<rparr>)"
proof (cases "a \<ge> bucket_to b \<or> c < bucket_from b")
  case True
  then show ?thesis by (simp add: select_def)
next
  case False
  show ?thesis
  proof (cases "getTimeRangeByteOffsets (valueByteLength b) (loadData b) a c")
    case (Inl e)
    then show ?thesis using False by (simp add: select_def Let_def)
  next
    case (Inr p)
    obtain fo to where "p = (fo, to)" by (cases p)
    then show ?thesis using False Inr by (cases asc) (simp_all add: select_def Let_def)
  qed
qed

lemma bucketInvariant_select:
  "bucketInvariant b \<Longrightarrow> bucketInvariant (snd (select asc a c b))"
  unfolding snd_select using bucketInvariant_loaded[of b] by simp

lemma bucketInvariant_data:
  assumes "dataInvariant (valueByteLength b) d'"
    and "list_all (\<lambda>e. isTimeInRange b (fst e)) (entries d')"
  shows "bucketInvariant (b\<lparr>data := Some d', requireFlush := f\<rparr>)"
proof -
  let ?b' = "b\<lparr>data := Some d', requireFlush := f\<rparr>"
  have ld: "loadData ?b' = d'" by (simp add: loadData_def)
  have vb: "valueByteLength ?b' = valueByteLength b" by simp
  have ir: "isTimeInRange ?b' = isTimeInRange b" by (rule isTimeInRange_cong) simp
  show ?thesis unfolding bucketInvariant_def ld vb ir using assms by simp
qed

lemma bucketInvariant_delete:
  assumes inv: "bucketInvariant b" and ac: "a \<le> c"
  shows "bucketInvariant (snd (bucket_delete a c b))"
proof (cases "a \<ge> bucket_to b \<or> c < bucket_from b")
  case True
  then show ?thesis using inv by (simp add: bucket_delete_def)
next
  case False
  define d where "d = loadData b"
  define v where "v = valueByteLength b"
  define R where "R = entryByteLength v"
  have R: "0 < R" unfolding R_def by (rule entryByteLength_pos)
  have di: "dataInvariant v d" and ra: "list_all (\<lambda>e. isTimeInRange b (fst e)) (entries d)"
    using inv by (simp_all add: bucketInvariant_def d_def v_def)
  from getTimeRangeByteOffsets_spec[OF di, of a c] obtain kf kt where
    o: "getTimeRangeByteOffsets v d a c = Inr (kf * R, kt * R)"
    and k: "kf \<le> length (entries d)" "kt \<le> length (entries d)"
    and f: "take kf (entries d) = filter (\<lambda>e. fst e < a) (entries d)"
       "drop kf (entries d) = filter (\<lambda>e. a \<le> fst e) (entries d)"
    and t: "take kt (entries d) = filter (\<lambda>e. fst e \<le> c) (entries d)"
       "drop kt (entries d) = filter (\<lambda>e. c < fst e) (entries d)"
    unfolding R_def by blast
  note rs = range_slice[OF f t k ac]
  show ?thesis
  proof (cases "kf = kt")
    case True
    then have "bucket_delete a c b = (Inr (), b\<lparr>data := Some d\<rparr>)"
      using False o
      by (simp add: bucket_delete_def d_def[symmetric] v_def[symmetric] R_def[symmetric] Let_def)
    then show ?thesis using inv bucketInvariant_loaded[of b] by (simp add: d_def)
  next
    case ne: False
    then have lt: "kf < kt" using rs(1) by simp
    then have ne': "kf * R \<noteq> kt * R" and le': "kf * R \<le> kt * R" using R by auto
    have ai: "arenaInvariant (arena d)" and len: "rb_length (arena d) = length (entries d) * R"
      and srt: "sorted (map fst (entries d))"
      using di by (simp_all add: dataInvariant_def R_def)
    define a' where "a' = (arena d)\<lparr>rb_length := rb_length (arena d) - (kt * R - kf * R)\<rparr>"
    define es' where "es' = take kf (entries d) @ drop kt (entries d)"
    have r: "resize (rb_length (arena d) - (kt * R - kf * R)) (arena d) = (Inr (), a')"
      unfolding a'_def by (rule resize_shrink[OF ai]) simp
    have bd: "bucket_delete a c b
          = (Inr (), b\<lparr>data := Some \<lparr>arena = a', entries = es'\<rparr>, requireFlush := True\<rparr>)"
      using False o ne' le' r R unfolding es'_def
      by (simp add: bucket_delete_def d_def[symmetric] v_def[symmetric] R_def[symmetric] Let_def)
    have "length es' = length (entries d) - (kt - kf)"
      using k lt by (simp add: es'_def)
    then have l': "rb_length a' = length es' * R"
      using len by (simp add: a'_def diff_mult_distrib)
    have ai': "arenaInvariant a'"
      using ai by (auto simp: arenaInvariant_def a'_def)
    have "sorted (map fst (filter (\<lambda>e. \<not> (a \<le> fst e \<and> fst e \<le> c)) (entries d)))"
      using srt by (simp add: sorted_map sorted_wrt_filter)
    then have s': "sorted (map fst es')" using rs(3) by (simp add: es'_def)
    have "set es' \<subseteq> set (entries d)"
      unfolding es'_def using set_take_subset[of kf "entries d"] set_drop_subset[of kt "entries d"]
      by auto
    then have ra': "list_all (\<lambda>e. isTimeInRange b (fst e)) es'"
      using ra by (auto simp: list_all_iff)
    have "dataInvariant (valueByteLength b) \<lparr>arena = a', entries = es'\<rparr>"
      using l' ai' s' by (simp add: dataInvariant_def R_def v_def)
    then show ?thesis unfolding bd using ra' by (simp add: bucketInvariant_data)
  qed
qed

lemma bucketInvariant_drop:
  assumes inv: "bucketInvariant b"
  shows "bucketInvariant (snd (bucket_drop b))"
proof (cases "rb_length (arena (loadData b)) = 0")
  case True
  then show ?thesis using inv bucketInvariant_loaded[of b] by (simp add: bucket_drop_def Let_def)
next
  case False
  have ai: "arenaInvariant (arena (loadData b))"
    using inv by (simp add: bucketInvariant_def dataInvariant_def)
  have r: "resize 0 (arena (loadData b)) = (Inr (), (arena (loadData b))\<lparr>rb_length := 0\<rparr>)"
    by (rule resize_shrink[OF ai]) simp
  have "bucket_drop b = (Inr (), b\<lparr>data := Some \<lparr>arena = (arena (loadData b))\<lparr>rb_length := 0\<rparr>,
                                               entries = []\<rparr>, requireFlush := True\<rparr>)"
    using False r by (simp add: bucket_drop_def Let_def)
  moreover have "dataInvariant (valueByteLength b)
      \<lparr>arena = (arena (loadData b))\<lparr>rb_length := 0\<rparr>, entries = []\<rparr>"
    using ai by (auto simp: dataInvariant_def arenaInvariant_def)
  ultimately show ?thesis by (simp add: bucketInvariant_data)
qed

lemma insert_loop_invariant:
  assumes "dataInvariant (valueByteLength b) d"
    and "list_all (\<lambda>e. isTimeInRange b (fst e)) (entries d)"
    and "insert_loop b es d = (Inr u, d')"
  shows "dataInvariant (valueByteLength b) d' \<and> list_all (\<lambda>e. isTimeInRange b (fst e)) (entries d')"
  using assms
proof (induction es arbitrary: d)
  case Nil
  then show ?case by simp
next
  case (Cons x es)
  obtain t val where x: "x = (t, val)" by (cases x)
  from Cons.prems(3) obtain off d1 where p: "pushRaw (valueByteLength b) t val d = (Inr off, d1)"
    and tr: "isTimeInRange b t" and l: "insert_loop b es d1 = (Inr u, d')"
    unfolding x by (auto split: if_splits prod.splits sum.splits)
  from pushRaw_spec[OF Cons.prems(1) p] obtain k where di1: "dataInvariant (valueByteLength b) d1"
    and e: "entries d1 = take k (entries d) @ [(t, val)] @ drop k (entries d)"
    by blast
  have "set (entries d1) \<subseteq> insert (t, val) (set (entries d))"
    unfolding e using set_take_subset[of k "entries d"] set_drop_subset[of k "entries d"]
    by auto
  then have "list_all (\<lambda>e. isTimeInRange b (fst e)) (entries d1)"
    using Cons.prems(2) tr by (auto simp: list_all_iff)
  from Cons.IH[OF di1 this l] show ?case .
qed

lemma bucketInvariant_insert:
  assumes inv: "bucketInvariant b" and i: "bucket_insert es b = (Inr (), b', es')"
  shows "bucketInvariant b'"
proof (cases "es = []")
  case True
  then show ?thesis using inv i bucketInvariant_loaded[of b] by (auto simp: bucket_insert_def Let_def)
next
  case False
  then obtain d' where l: "insert_loop b (sortTimeSeriesEntries es) (loadData b) = (Inr (), d')"
    and b': "b' = b\<lparr>data := Some d', requireFlush := True\<rparr>"
    using i by (auto simp: bucket_insert_def Let_def split: prod.splits sum.splits)
  have "dataInvariant (valueByteLength b) (loadData b)"
    "list_all (\<lambda>e. isTimeInRange b (fst e)) (entries (loadData b))"
    using inv by (simp_all add: bucketInvariant_def)
  from insert_loop_invariant[OF this l] show ?thesis
    unfolding b' by (simp add: bucketInvariant_data)
qed

lemma bucketInvariant_flush:
  assumes inv: "bucketInvariant b" and rf: "requireFlush b" and ld: "data b = Some d"
  shows "bucketInvariant (snd (flush unload b))"
proof -
  define v where "v = valueByteLength b"
  define R where "R = entryByteLength v"
  have R: "0 < R" unfolding R_def by (rule entryByteLength_pos)
  have d: "loadData b = d" using ld by (simp add: loadData_def)
  have di: "dataInvariant v d" and ra: "list_all (\<lambda>e. isTimeInRange b (fst e)) (entries d)"
    using inv by (simp_all add: bucketInvariant_def d v_def)
  have len: "rb_length (arena d) = length (entries d) * R"
    and srt: "sorted (map fst (entries d))"
    using di by (simp_all add: dataInvariant_def R_def)
  have tk: "take (rb_length (arena d) div R) (entries d) = entries d"
    using len R by simp
  define f where "f = (if rb_length (arena d) = 0 then None else Some (entries d))"
  show ?thesis
  proof (cases unload)
    case False
    then have "snd (flush unload b) = b\<lparr>bucket_file := f, requireFlush := False\<rparr>"
      using rf ld tk by (simp add: flush_def Let_def f_def R_def v_def)
    moreover have "bucketInvariant (b\<lparr>bucket_file := f, requireFlush := False\<rparr>) = bucketInvariant b"
      by (rule bucketInvariant_cong) (simp_all add: loadData_def ld)
    ultimately show ?thesis using inv by simp
  next
    case True
    then have s: "snd (flush unload b) = b\<lparr>bucket_file := f, requireFlush := False, data := None\<rparr>"
      using rf ld tk by (simp add: flush_def Let_def f_def R_def v_def)
    show ?thesis
    proof (cases "rb_length (arena d) = 0")
      case True
      then have e: "entries d = []" using len R by simp
      have "loadData (snd (flush unload b)) = \<lparr>arena = ResizeableBuffer_new, entries = []\<rparr>"
        unfolding s using True by (simp add: loadData_def f_def)
      then show ?thesis
        unfolding bucketInvariant_def
        by (simp add: dataInvariant_def arenaInvariant_new) (simp add: ResizeableBuffer_new_def)
    next
      case False
      have l: "loadData (snd (flush unload b))
            = \<lparr>arena = ResizeableBuffer_wrap (length (entries d) * R), entries = entries d\<rparr>"
        unfolding s using False by (simp add: loadData_def f_def R_def v_def)
      have vb: "valueByteLength (snd (flush unload b)) = v" unfolding s by (simp add: v_def)
      have ir: "isTimeInRange (snd (flush unload b)) = isTimeInRange b"
        by (rule isTimeInRange_cong) (simp add: s)
      show ?thesis
        unfolding bucketInvariant_def l vb ir
        using srt ra
        by (simp add: dataInvariant_def arenaInvariant_wrap R_def) (simp add: ResizeableBuffer_wrap_def)
    qed
  qed
qed

section \<open>Range selection and deletion: the result\<close>

lemma snd_bucket_delete_fields:
  "valueByteLength (snd (bucket_delete a c b)) = valueByteLength b
   \<and> bucket_id (snd (bucket_delete a c b)) = bucket_id b
   \<and> bucket_file (snd (bucket_delete a c b)) = bucket_file b"
proof (cases "a \<ge> bucket_to b \<or> c < bucket_from b")
  case True
  then show ?thesis by (simp add: bucket_delete_def)
next
  case False
  show ?thesis
  proof (cases "getTimeRangeByteOffsets (valueByteLength b) (loadData b) a c")
    case (Inl e)
    then show ?thesis using False by (simp add: bucket_delete_def Let_def)
  next
    case (Inr p)
    obtain fo to where p: "p = (fo, to)" by (cases p)
    show ?thesis
    proof (cases "fo = to")
      case True
      then show ?thesis using False Inr p by (simp add: bucket_delete_def Let_def)
    next
      case ne: False
      show ?thesis
        using False Inr p ne
        by (simp add: bucket_delete_def Let_def split: prod.split sum.split)
    qed
  qed
qed

text \<open>
  C2. For a bucket that satisfies its invariant and bounds \<open>a \<le> c\<close>, \<^verbatim>\<open>select\<close> with
  \<open>asc: true\<close> returns exactly the entries with \<open>a \<le> t \<le> c\<close>, in their stored order; they
  are a contiguous slice of the data, every entry before it is earlier than \<open>a\<close> and every
  entry after it later than \<open>c\<close>, and it is sorted by time. \<^verbatim>\<open>delete\<close> completes and leaves
  exactly the other entries: the length of the data is that of the other entries (it has
  gone down by the size of the entries removed), the invariant still holds, and a
  \<^verbatim>\<open>select\<close> that follows, over any range, returns the other entries of that range.
\<close>

theorem range_select_and_delete:
  assumes "bucketInvariant b" and "a \<le> c"
  shows "fst (select True a c b)
           = Inr (filter (\<lambda>e. a \<le> fst e \<and> fst e \<le> c) (entries (loadData b)))
       \<and> (\<exists>xs ys. entries (loadData b)
              = xs @ filter (\<lambda>e. a \<le> fst e \<and> fst e \<le> c) (entries (loadData b)) @ ys
            \<and> list_all (\<lambda>e. fst e < a) xs \<and> list_all (\<lambda>e. c < fst e) ys)
       \<and> sorted (map fst (filter (\<lambda>e. a \<le> fst e \<and> fst e \<le> c) (entries (loadData b))))
       \<and> fst (bucket_delete a c b) = Inr ()
       \<and> entries (loadData (snd (bucket_delete a c b)))
           = filter (\<lambda>e. \<not> (a \<le> fst e \<and> fst e \<le> c)) (entries (loadData b))
       \<and> dataLength (snd (bucket_delete a c b))
           = length (filter (\<lambda>e. \<not> (a \<le> fst e \<and> fst e \<le> c)) (entries (loadData b)))
             * entryByteLength (valueByteLength b)
       \<and> dataLength (snd (bucket_delete a c b))
           + length (filter (\<lambda>e. a \<le> fst e \<and> fst e \<le> c) (entries (loadData b)))
             * entryByteLength (valueByteLength b)
           = dataLength b
       \<and> bucketInvariant (snd (bucket_delete a c b))
       \<and> (a' \<le> c' \<longrightarrow>
            fst (select True a' c' (snd (bucket_delete a c b)))
              = Inr (filter (\<lambda>e. a' \<le> fst e \<and> fst e \<le> c')
                      (filter (\<lambda>e. \<not> (a \<le> fst e \<and> fst e \<le> c)) (entries (loadData b)))))"
proof -
  let ?es = "entries (loadData b)"
  let ?mid = "filter (\<lambda>e. a \<le> fst e \<and> fst e \<le> c) ?es"
  let ?rest = "filter (\<lambda>e. \<not> (a \<le> fst e \<and> fst e \<le> c)) ?es"
  let ?b' = "snd (bucket_delete a c b)"
  let ?R = "entryByteLength (valueByteLength b)"
  have di: "dataInvariant (valueByteLength b) (loadData b)"
    using assms(1) by (simp add: bucketInvariant_def)
  from getTimeRangeByteOffsets_spec[OF di, of a c] obtain kf kt where
    k: "kf \<le> length ?es" "kt \<le> length ?es"
    and f: "take kf ?es = filter (\<lambda>e. fst e < a) ?es" "drop kf ?es = filter (\<lambda>e. a \<le> fst e) ?es"
    and t: "take kt ?es = filter (\<lambda>e. fst e \<le> c) ?es" "drop kt ?es = filter (\<lambda>e. c < fst e) ?es"
    by blast
  note rs = range_slice[OF f t k assms(2)]
  have "?es = take kf ?es @ take (kt - kf) (drop kf ?es) @ drop kt ?es"
    using rs(1) by (metis add_diff_inverse_nat append_take_drop_id drop_drop not_less add.commute)
  then have "?es = take kf ?es @ ?mid @ drop kt ?es" unfolding rs(2) .
  moreover have "list_all (\<lambda>e. fst e < a) (take kf ?es)"
    unfolding f(1) by (simp add: list_all_iff)
  moreover have "list_all (\<lambda>e. c < fst e) (drop kt ?es)"
    unfolding t(2) by (simp add: list_all_iff)
  ultimately have slice: "\<exists>xs ys. ?es = xs @ ?mid @ ys
            \<and> list_all (\<lambda>e. fst e < a) xs \<and> list_all (\<lambda>e. c < fst e) ys"
    by blast
  have "sorted (map fst ?es)" using di by (simp add: dataInvariant_def)
  then have srt: "sorted (map fst ?mid)"
    by (simp add: sorted_map sorted_wrt_filter)
  note del = delete_spec[OF assms]
  have inv': "bucketInvariant ?b'" by (rule bucketInvariant_delete[OF assms])
  have vb: "valueByteLength ?b' = valueByteLength b"
    using snd_bucket_delete_fields[of a c b] by simp
  have "rb_length (arena (loadData ?b')) = length (entries (loadData ?b')) * ?R"
    using inv' unfolding bucketInvariant_def dataInvariant_def vb by simp
  then have len': "dataLength ?b' = length ?rest * ?R"
    unfolding del(2) by (simp add: dataLength_def)
  have "dataLength b = length ?es * ?R"
    using di by (simp add: dataInvariant_def dataLength_def)
  moreover have "length ?mid + length ?rest = length ?es"
    by (rule sum_length_filter_compl)
  ultimately have lenb: "dataLength ?b' + length ?mid * ?R = dataLength b"
    using len' by (simp add: add_mult_distrib[symmetric] add.commute)
  have sel': "a' \<le> c' \<longrightarrow> fst (select True a' c' ?b')
              = Inr (filter (\<lambda>e. a' \<le> fst e \<and> fst e \<le> c') ?rest)"
  proof
    assume "a' \<le> c'"
    from select_asc_spec[OF inv' this] show "fst (select True a' c' ?b')
              = Inr (filter (\<lambda>e. a' \<le> fst e \<and> fst e \<le> c') ?rest)"
      unfolding del(2) .
  qed
  show ?thesis
    using select_asc_spec[OF assms] slice srt del len' lenb inv' sel' by blast
qed

theorem range_select_and_delete_witness:
  "bucketInvariant
     \<lparr>bucket_id = 0, valueByteLength = 2,
      data = Some \<lparr>arena = ResizeableBuffer_wrap 70,
                   entries = [(1, [1, 0]), (5, [2, 0]), (5, [3, 0]), (7, [4, 0]),
                              (9, [5, 0]), (9, [6, 0]), (10, [7, 0])]\<rparr>,
      requireFlush = False, bucket_file = None\<rparr>
   \<and> (5 :: real) \<le> 9
   \<and> fst (select True 5 9
        \<lparr>bucket_id = 0, valueByteLength = 2,
         data = Some \<lparr>arena = ResizeableBuffer_wrap 70,
                      entries = [(1, [1, 0]), (5, [2, 0]), (5, [3, 0]), (7, [4, 0]),
                                 (9, [5, 0]), (9, [6, 0]), (10, [7, 0])]\<rparr>,
         requireFlush = False, bucket_file = None\<rparr>)
       = Inr [(5, [2, 0]), (5, [3, 0]), (7, [4, 0]), (9, [5, 0]), (9, [6, 0])]
   \<and> fst (bucket_delete 5 9
        \<lparr>bucket_id = 0, valueByteLength = 2,
         data = Some \<lparr>arena = ResizeableBuffer_wrap 70,
                      entries = [(1, [1, 0]), (5, [2, 0]), (5, [3, 0]), (7, [4, 0]),
                                 (9, [5, 0]), (9, [6, 0]), (10, [7, 0])]\<rparr>,
         requireFlush = False, bucket_file = None\<rparr>) = Inr ()
   \<and> dataLength (snd (bucket_delete 5 9
        \<lparr>bucket_id = 0, valueByteLength = 2,
         data = Some \<lparr>arena = ResizeableBuffer_wrap 70,
                      entries = [(1, [1, 0]), (5, [2, 0]), (5, [3, 0]), (7, [4, 0]),
                                 (9, [5, 0]), (9, [6, 0]), (10, [7, 0])]\<rparr>,
         requireFlush = False, bucket_file = None\<rparr>)) = 20
   \<and> (0 :: real) \<le> 512
   \<and> fst (select True 0 512 (snd (bucket_delete 5 9
        \<lparr>bucket_id = 0, valueByteLength = 2,
         data = Some \<lparr>arena = ResizeableBuffer_wrap 70,
                      entries = [(1, [1, 0]), (5, [2, 0]), (5, [3, 0]), (7, [4, 0]),
                                 (9, [5, 0]), (9, [6, 0]), (10, [7, 0])]\<rparr>,
         requireFlush = False, bucket_file = None\<rparr>)))
       = Inr [(1, [1, 0]), (10, [7, 0])]"
proof -
  let ?b = "\<lparr>bucket_id = 0, valueByteLength = 2,
      data = Some \<lparr>arena = ResizeableBuffer_wrap 70,
                   entries = [(1, [1, 0]), (5, [2, 0]), (5, [3, 0]), (7, [4, 0]),
                              (9, [5, 0]), (9, [6, 0]), (10, [7, 0])]\<rparr>,
      requireFlush = False, bucket_file = None\<rparr>"
  have inv: "bucketInvariant ?b"
    by (simp add: invariant_defs bucket_defs)
  have le: "(5 :: real) \<le> 9" by simp
  show ?thesis
    using range_select_and_delete[OF inv le, of 0 512] inv
    by (simp add: loadData_def entryByteLength_def timeByteLength_def)
qed

section \<open>The flush discipline\<close>

text \<open>
  A new bucket whose file is absent or holds records keeps the discipline, and so does the
  bucket left by every \<^verbatim>\<open>push\<close>, \<^verbatim>\<open>insert\<close>, \<^verbatim>\<open>delete\<close> and \<^verbatim>\<open>drop\<close> that completes, by
  every \<^verbatim>\<open>select\<close> and by \<^verbatim>\<open>flush\<close>. For a loaded bucket that keeps it, a \<^verbatim>\<open>flush\<close> completes
  and leaves the file with exactly the first \<open>length\<close> bytes of the data, and no file when
  the length is 0 (\<open>flush_writes_data\<close>).
\<close>

lemma flushDiscipline_cong:
  assumes "loadData b' = loadData b" "valueByteLength b' = valueByteLength b"
    "bucket_file b' = bucket_file b" "requireFlush b' = requireFlush b"
  shows "flushDiscipline b' = flushDiscipline b"
  unfolding flushDiscipline_def assms ..

lemma flushDiscipline_loaded:
  "flushDiscipline (b\<lparr>data := Some (loadData b)\<rparr>) = flushDiscipline b"
  by (rule flushDiscipline_cong) simp_all

lemma reload_dataFile:
  assumes di: "dataInvariant (valueByteLength b) d"
    and f: "bucket_file b = dataFile (valueByteLength b) d" and n: "data b = None"
  shows "dataFile (valueByteLength b) (loadData b) = bucket_file b"
proof (cases "rb_length (arena d) = 0")
  case True
  then have "bucket_file b = None" using f by (simp add: dataFile_def)
  then show ?thesis using n by (simp add: loadData_def dataFile_def ResizeableBuffer_new_def)
next
  case False
  define R where "R = entryByteLength (valueByteLength b)"
  have R: "0 < R" unfolding R_def by (rule entryByteLength_pos)
  have len: "rb_length (arena d) = length (entries d) * R"
    using di by (simp add: dataInvariant_def R_def)
  then have ne: "entries d \<noteq> []" using False by auto
  have "bucket_file b = Some (entries d)"
    using f False len R by (simp add: dataFile_def R_def[symmetric])
  then show ?thesis
    using n ne R
    by (simp add: loadData_def dataFile_def ResizeableBuffer_wrap_def R_def[symmetric])
qed

lemma flushDiscipline_new:
  "f \<noteq> Some [] \<Longrightarrow> flushDiscipline (newZektaTimeBucket i v f)"
proof (cases f)
  case None
  then show ?thesis
    by (simp add: flushDiscipline_def newZektaTimeBucket_def loadData_def dataFile_def
        ResizeableBuffer_new_def)
next
  case (Some es)
  assume "f \<noteq> Some []"
  then have "es \<noteq> []" using Some by simp
  then show ?thesis
    using Some entryByteLength_pos[of v]
    by (simp add: flushDiscipline_def newZektaTimeBucket_def loadData_def dataFile_def
        ResizeableBuffer_wrap_def)
qed

lemma flush_writes_data:
  assumes "flushDiscipline b" and "data b = Some d"
  shows "fst (flush unload b) = Inr ()"
    and "bucket_file (snd (flush unload b)) = dataFile (valueByteLength b) d"
    and "\<not> requireFlush (snd (flush unload b))"
  using assms by (auto simp: flush_def flushDiscipline_def dataFile_def loadData_def Let_def)

lemma flushDiscipline_push:
  "push t val b = (Inr (), b') \<Longrightarrow> flushDiscipline b'"
  by (auto simp: push_def flushDiscipline_def Let_def split: if_splits prod.splits sum.splits)

lemma flushDiscipline_insert:
  assumes "flushDiscipline b" and "bucket_insert es b = (Inr (), b', es')"
  shows "flushDiscipline b'"
proof (cases "es = []")
  case True
  then have "b' = b\<lparr>data := Some (loadData b)\<rparr>"
    using assms(2) by (simp add: bucket_insert_def Let_def)
  then show ?thesis using assms(1) flushDiscipline_loaded[of b] by simp
next
  case False
  then have "requireFlush b'"
    using assms(2) by (auto simp: bucket_insert_def Let_def split: prod.splits sum.splits)
  then show ?thesis by (simp add: flushDiscipline_def)
qed

lemma flushDiscipline_select:
  "flushDiscipline b \<Longrightarrow> flushDiscipline (snd (select asc a c b))"
  unfolding snd_select using flushDiscipline_loaded[of b] by simp

lemma flushDiscipline_delete:
  assumes fd: "flushDiscipline b" and del: "bucket_delete a c b = (Inr (), b')"
  shows "flushDiscipline b'"
proof (cases "a \<ge> bucket_to b \<or> c < bucket_from b")
  case True
  then show ?thesis using fd del by (simp add: bucket_delete_def)
next
  case False
  show ?thesis
  proof (cases "getTimeRangeByteOffsets (valueByteLength b) (loadData b) a c")
    case (Inl e)
    then show ?thesis using False del by (simp add: bucket_delete_def Let_def)
  next
    case (Inr p)
    obtain fo to where p: "p = (fo, to)" by (cases p)
    show ?thesis
    proof (cases "fo = to")
      case True
      then have "b' = b\<lparr>data := Some (loadData b)\<rparr>"
        using False Inr p del by (simp add: bucket_delete_def Let_def)
      then show ?thesis using fd flushDiscipline_loaded[of b] by simp
    next
      case ne: False
      have "requireFlush b'"
        using False Inr p ne del
        by (auto simp: bucket_delete_def Let_def split: prod.splits sum.splits)
      then show ?thesis by (simp add: flushDiscipline_def)
    qed
  qed
qed

lemma flushDiscipline_drop:
  assumes fd: "flushDiscipline b" and dr: "bucket_drop b = (Inr (), b')"
  shows "flushDiscipline b'"
proof (cases "rb_length (arena (loadData b)) = 0")
  case True
  then have "b' = b\<lparr>data := Some (loadData b)\<rparr>"
    using dr by (simp add: bucket_drop_def Let_def)
  then show ?thesis using fd flushDiscipline_loaded[of b] by simp
next
  case False
  then have "requireFlush b'"
    using dr by (auto simp: bucket_drop_def Let_def split: prod.splits sum.splits)
  then show ?thesis by (simp add: flushDiscipline_def)
qed

lemma flushDiscipline_flush:
  assumes inv: "bucketInvariant b" and fd: "flushDiscipline b"
    and ld: "requireFlush b \<longrightarrow> data b \<noteq> None"
  shows "flushDiscipline (snd (flush unload b))"
proof -
  define v where "v = valueByteLength b"
  define d where "d = loadData b"
  have di: "dataInvariant v d" using inv by (simp add: bucketInvariant_def v_def d_def)
  define f where "f = (if requireFlush b then dataFile v d else bucket_file b)"
  have fd': "f = dataFile v d"
    using fd by (auto simp: f_def flushDiscipline_def v_def d_def)
  have dd: "data b = Some d" if "requireFlush b"
    using ld that by (auto simp: d_def loadData_def)
  have s: "snd (flush unload b)
         = (if unload then b\<lparr>bucket_file := f, requireFlush := False, data := None\<rparr>
            else b\<lparr>bucket_file := f, requireFlush := False\<rparr>)"
  proof (cases "requireFlush b")
    case True
    then show ?thesis
      using dd[OF True] by (simp add: flush_def Let_def f_def dataFile_def v_def)
  next
    case False
    have "b\<lparr>bucket_file := bucket_file b, requireFlush := False\<rparr> = b" using False by simp
    then show ?thesis using False by (simp add: flush_def f_def)
  qed
  show ?thesis
  proof (cases unload)
    case False
    have "loadData (b\<lparr>bucket_file := f, requireFlush := False\<rparr>) = d"
    proof (cases "data b")
      case None
      then have nf: "\<not> requireFlush b" using ld by auto
      then have "b\<lparr>bucket_file := f, requireFlush := False\<rparr> = b" by (simp add: f_def)
      then show ?thesis by (simp add: d_def)
    next
      case (Some x)
      then show ?thesis by (simp add: loadData_def d_def)
    qed
    then show ?thesis unfolding s using False fd' by (simp add: flushDiscipline_def v_def)
  next
    case True
    let ?b' = "b\<lparr>bucket_file := f, requireFlush := False, data := None\<rparr>"
    have "dataFile (valueByteLength ?b') (loadData ?b') = bucket_file ?b'"
      by (rule reload_dataFile[where d = d]) (simp_all add: di[unfolded v_def] fd' v_def)
    then show ?thesis unfolding s using True by (simp add: flushDiscipline_def)
  qed
qed

text \<open>
  C3 fails after an \<^verbatim>\<open>insert\<close> that raises part-way. On a new bucket without a file,
  \<^verbatim>\<open>insert\<close> of three entries sorts them, writes two and raises at the third, which is out
  of range, before it reaches \<^verbatim>\<open>requireFlush()\<close>: the data is 18 bytes long and the flag is
  not set. The \<^verbatim>\<open>flush\<close> that follows completes and writes nothing: there is no file,
  although the data is not empty. (\<^verbatim>\<open>push\<close> writes one entry through the same \<^verbatim>\<open>#pushRaw\<close>
  and sets the flag.)
\<close>

theorem flush_after_failed_insert_leaves_no_file:
  "bucket_insert [(3, [9]), (600, [8]), (1, [7])] (newZektaTimeBucket 0 1 None)
     = (Inl (TimeOutOfRange 600),
        \<lparr>bucket_id = 0, valueByteLength = 1,
          data = Some \<lparr>arena = ResizeableBuffer_new\<lparr>rb_length := 18\<rparr>,
                       entries = [(1, [7]), (3, [9])]\<rparr>,
          requireFlush = False, bucket_file = None\<rparr>,
        [(1, [7]), (3, [9]), (600, [8])])
   \<and> flush False
        \<lparr>bucket_id = 0, valueByteLength = 1,
          data = Some \<lparr>arena = ResizeableBuffer_new\<lparr>rb_length := 18\<rparr>,
                       entries = [(1, [7]), (3, [9])]\<rparr>,
          requireFlush = False, bucket_file = None\<rparr>
     = (Inr (),
        \<lparr>bucket_id = 0, valueByteLength = 1,
          data = Some \<lparr>arena = ResizeableBuffer_new\<lparr>rb_length := 18\<rparr>,
                       entries = [(1, [7]), (3, [9])]\<rparr>,
          requireFlush = False, bucket_file = None\<rparr>)"
  by (simp add: bucket_defs)

section \<open>A failed insert\<close>

text \<open>
  C10, as the code has it. When the sorted batch has a first entry that is out of range or
  of the wrong length and the entries before it have been written, \<^verbatim>\<open>insert\<close> raises for
  that entry; the caller's array is left sorted; the entries before it stay in the data
  (for a bucket that satisfies its invariant the data is longer by their size, the
  invariant still holds, and a \<^verbatim>\<open>select\<close> that follows returns what it returned before
  together with those of them in its range); the flag is left as it was. So when the flag
  was not set before the call, a \<^verbatim>\<open>flush\<close> that follows leaves the file as it was; when
  it was set, the \<^verbatim>\<open>flush\<close> writes the data with the entries inserted so far.
\<close>

theorem insert_failure_is_partial:
  assumes "sortTimeSeriesEntries es = pre @ (t, val) # post"
    and "insert_loop b pre (loadData b) = (Inr (), d')"
    and "\<not> isTimeInRange b t \<or> length val \<noteq> valueByteLength b"
  shows "bucket_insert es b
           = (Inl (if \<not> isTimeInRange b t then TimeOutOfRange t
                   else InvalidValueLength (length val)),
              b\<lparr>data := Some d'\<rparr>, sortTimeSeriesEntries es)
         \<and> mset (entries d') = mset (entries (loadData b)) + mset pre
         \<and> requireFlush (fst (snd (bucket_insert es b))) = requireFlush b
         \<and> (bucketInvariant b \<longrightarrow>
              bucketInvariant (fst (snd (bucket_insert es b)))
              \<and> dataLength (fst (snd (bucket_insert es b)))
                  = dataLength b + length pre * entryByteLength (valueByteLength b)
              \<and> (a \<le> c \<longrightarrow>
                   fst (select True a c (fst (snd (bucket_insert es b))))
                     = Inr (filter (\<lambda>e. a \<le> fst e \<and> fst e \<le> c) (entries d'))
                   \<and> (\<exists>xs. fst (select True a c b) = Inr xs
                        \<and> mset (filter (\<lambda>e. a \<le> fst e \<and> fst e \<le> c) (entries d'))
                            = mset xs + mset (filter (\<lambda>e. a \<le> fst e \<and> fst e \<le> c) pre))))
         \<and> (\<not> requireFlush b \<longrightarrow>
              fst (flush unload (fst (snd (bucket_insert es b)))) = Inr ()
              \<and> bucket_file (snd (flush unload (fst (snd (bucket_insert es b))))) = bucket_file b)
         \<and> (requireFlush b \<longrightarrow>
              fst (flush unload (fst (snd (bucket_insert es b)))) = Inr ()
              \<and> bucket_file (snd (flush unload (fst (snd (bucket_insert es b)))))
                  = dataFile (valueByteLength b) d')"
proof -
  let ?P = "\<lambda>e :: entry. a \<le> fst e \<and> fst e \<le> c"
  let ?b' = "b\<lparr>data := Some d'\<rparr>"
  have ne: "es \<noteq> []"
    using assms(1) by (auto simp: sortTimeSeriesEntries_def)
  have "insert_loop b (sortTimeSeriesEntries es) (loadData b)
          = (Inl (if \<not> isTimeInRange b t then TimeOutOfRange t
                  else InvalidValueLength (length val)), d')"
    using assms(2,3) unfolding assms(1) insert_loop_append by auto
  then have bi: "bucket_insert es b
           = (Inl (if \<not> isTimeInRange b t then TimeOutOfRange t
                   else InvalidValueLength (length val)),
              ?b', sortTimeSeriesEntries es)"
    using ne by (simp add: bucket_insert_def Let_def)
  have ms: "mset (entries d') = mset (entries (loadData b)) + mset pre"
    using insert_loop_mset[OF assms(2)] .
  have fl: "requireFlush ?b' = requireFlush b" by simp
  have inv: "bucketInvariant ?b'
      \<and> dataLength ?b' = dataLength b + length pre * entryByteLength (valueByteLength b)
      \<and> (a \<le> c \<longrightarrow>
           fst (select True a c ?b') = Inr (filter ?P (entries d'))
           \<and> (\<exists>xs. fst (select True a c b) = Inr xs
                \<and> mset (filter ?P (entries d')) = mset xs + mset (filter ?P pre)))"
    if i: "bucketInvariant b"
  proof -
    have di: "dataInvariant (valueByteLength b) (loadData b)"
      and ra: "list_all (\<lambda>e. isTimeInRange b (fst e)) (entries (loadData b))"
      using i by (simp_all add: bucketInvariant_def)
    from insert_loop_invariant[OF di ra assms(2)]
    have di': "dataInvariant (valueByteLength b) d'"
      and ra': "list_all (\<lambda>e. isTimeInRange b (fst e)) (entries d')"
      by simp_all
    have "bucketInvariant (b\<lparr>data := Some d', requireFlush := requireFlush b\<rparr>)"
      using di' ra' by (rule bucketInvariant_data)
    then have i': "bucketInvariant ?b'" by simp
    have "length (entries d') = length (entries (loadData b)) + length pre"
      using ms by (metis length_append mset_append mset_eq_length)
    then have dl: "dataLength ?b'
        = dataLength b + length pre * entryByteLength (valueByteLength b)"
      using di di' by (simp add: dataLength_def dataInvariant_def add_mult_distrib)
    have sel: "fst (select True a c ?b') = Inr (filter ?P (entries d'))
           \<and> (\<exists>xs. fst (select True a c b) = Inr xs
                \<and> mset (filter ?P (entries d')) = mset xs + mset (filter ?P pre))"
      if ac: "a \<le> c"
    proof -
      have "fst (select True a c ?b') = Inr (filter ?P (entries d'))"
        using select_asc_spec[OF i' ac] by simp
      moreover have "fst (select True a c b) = Inr (filter ?P (entries (loadData b)))"
        using select_asc_spec[OF i ac] .
      moreover have "mset (filter ?P (entries d'))
          = mset (filter ?P (entries (loadData b))) + mset (filter ?P pre)"
        unfolding mset_filter ms by simp
      ultimately show ?thesis by blast
    qed
    show ?thesis using i' dl sel by blast
  qed
  have f0: "\<not> requireFlush b \<longrightarrow>
      fst (flush unload ?b') = Inr () \<and> bucket_file (snd (flush unload ?b')) = bucket_file b"
    by (simp add: flush_def)
  have f1: "requireFlush b \<longrightarrow>
      fst (flush unload ?b') = Inr ()
      \<and> bucket_file (snd (flush unload ?b')) = dataFile (valueByteLength b) d'"
    by (simp add: flush_def dataFile_def Let_def)
  show ?thesis unfolding bi using ms fl inv f0 f1 by simp
qed

theorem insert_failure_is_partial_witness:
  "bucket_insert [(3, [9]), (600, [8]), (1, [7])] (newZektaTimeBucket 0 1 None)
     = (Inl (TimeOutOfRange 600),
        (newZektaTimeBucket 0 1 None)
          \<lparr>data := Some \<lparr>arena = ResizeableBuffer_new\<lparr>rb_length := 18\<rparr>,
                          entries = [(1, [7]), (3, [9])]\<rparr>\<rparr>,
        [(1, [7]), (3, [9]), (600, [8])])
   \<and> bucketInvariant (newZektaTimeBucket 0 1 None)
   \<and> \<not> requireFlush (newZektaTimeBucket 0 1 None)
   \<and> (0 :: real) \<le> 512
   \<and> fst (select True 0 512 ((newZektaTimeBucket 0 1 None)
          \<lparr>data := Some \<lparr>arena = ResizeableBuffer_new\<lparr>rb_length := 18\<rparr>,
                          entries = [(1, [7]), (3, [9])]\<rparr>\<rparr>))
       = Inr [(1, [7]), (3, [9])]
   \<and> flush False ((newZektaTimeBucket 0 1 None)
          \<lparr>data := Some \<lparr>arena = ResizeableBuffer_new\<lparr>rb_length := 18\<rparr>,
                          entries = [(1, [7]), (3, [9])]\<rparr>\<rparr>)
     = (Inr (), (newZektaTimeBucket 0 1 None)
          \<lparr>data := Some \<lparr>arena = ResizeableBuffer_new\<lparr>rb_length := 18\<rparr>,
                          entries = [(1, [7]), (3, [9])]\<rparr>\<rparr>)"
proof -
  let ?b = "newZektaTimeBucket 0 1 None"
  let ?d = "\<lparr>arena = ResizeableBuffer_new\<lparr>rb_length := 18\<rparr>, entries = [(1, [7]), (3, [9])]\<rparr>"
  have s: "sortTimeSeriesEntries [(3, [9]), (600, [8]), (1, [7])]
             = [(1, [7]), (3, [9])] @ (600, [8]) # ([] :: entry list)"
    by (simp add: sortTimeSeriesEntries_def)
  have l: "insert_loop ?b [(1, [7]), (3, [9])] (loadData ?b) = (Inr (), ?d)"
    by (simp add: bucket_defs)
  have r: "\<not> isTimeInRange ?b 600 \<or> length [8 :: byte] \<noteq> valueByteLength ?b"
    by (simp add: bucket_defs)
  have inv: "bucketInvariant ?b" by (rule bucketInvariant_new)
  have nf: "\<not> requireFlush ?b" by (simp add: newZektaTimeBucket_def)
  have bi: "bucket_insert [(3, [9]), (600, [8]), (1, [7])] ?b
     = (Inl (TimeOutOfRange 600), ?b\<lparr>data := Some ?d\<rparr>, [(1, [7]), (3, [9]), (600, [8])])"
    by (simp add: bucket_defs)
  note t = insert_failure_is_partial[OF s l r, of 0 512 False, unfolded bi]
  have sel: "fst (select True 0 512 (?b\<lparr>data := Some ?d\<rparr>)) = Inr [(1, [7]), (3, [9])]"
    using t inv by simp
  have fl: "flush False (?b\<lparr>data := Some ?d\<rparr>) = (Inr (), ?b\<lparr>data := Some ?d\<rparr>)"
    using nf by (simp add: flush_def)
  show ?thesis using bi inv nf sel fl by simp
qed

text \<open>
  On a bucket that a \<^verbatim>\<open>push\<close> has left with the flag set, the \<^verbatim>\<open>flush\<close> after a failed
  \<^verbatim>\<open>insert\<close> does persist the entry inserted before the failure.
\<close>

theorem flush_after_failed_insert_persists_when_dirty:
  "push 1 [2] (newZektaTimeBucket 0 1 None)
     = (Inr (),
        \<lparr>bucket_id = 0, valueByteLength = 1,
          data = Some \<lparr>arena = ResizeableBuffer_new\<lparr>rb_length := 9\<rparr>, entries = [(1, [2])]\<rparr>,
          requireFlush = True, bucket_file = None\<rparr>)
   \<and> bucket_insert [(3, [9]), (600, [8])]
        \<lparr>bucket_id = 0, valueByteLength = 1,
          data = Some \<lparr>arena = ResizeableBuffer_new\<lparr>rb_length := 9\<rparr>, entries = [(1, [2])]\<rparr>,
          requireFlush = True, bucket_file = None\<rparr>
     = (Inl (TimeOutOfRange 600),
        \<lparr>bucket_id = 0, valueByteLength = 1,
          data = Some \<lparr>arena = ResizeableBuffer_new\<lparr>rb_length := 18\<rparr>,
                       entries = [(1, [2]), (3, [9])]\<rparr>,
          requireFlush = True, bucket_file = None\<rparr>,
        [(3, [9]), (600, [8])])
   \<and> flush False
        \<lparr>bucket_id = 0, valueByteLength = 1,
          data = Some \<lparr>arena = ResizeableBuffer_new\<lparr>rb_length := 18\<rparr>,
                       entries = [(1, [2]), (3, [9])]\<rparr>,
          requireFlush = True, bucket_file = None\<rparr>
     = (Inr (),
        \<lparr>bucket_id = 0, valueByteLength = 1,
          data = Some \<lparr>arena = ResizeableBuffer_new\<lparr>rb_length := 18\<rparr>,
                       entries = [(1, [2]), (3, [9])]\<rparr>,
          requireFlush = False, bucket_file = Some [(1, [2]), (3, [9])]\<rparr>)"
  by (simp add: bucket_defs)

end
